theory Spec2Isabelle
  imports Main
begin

section \<open>The room-synchronisation server of backend/index.js\<close>

text \<open>
  The server keeps a process-wide directory \<open>rooms\<close> (a JavaScript \<open>Map\<close> from room
  identifiers to a \<open>Set\<close> of participant names), four fields of per-socket state in
  \<open>socket.data\<close>, and one debounce timer per socket. Every handler runs to completion on
  one event-loop turn, so a handler is a function from states to states; the debounce
  timers are the only deferred work and are kept in an explicit timer queue.

  The socket.io and Node primitives the handlers call are modelled at the level of their
  documented contract:
  \<^item> \<open>socket.join(r)\<close> / \<open>socket.leave(r)\<close> subscribe and unsubscribe the socket;
    on connection a socket is subscribed to the room named by its own id; when the
    transport closes the socket is unsubscribed from every room before the
    \<open>disconnect\<close> listener runs; the adapter keeps the ids of the connected sockets
    in the order of their connection;
  \<^item> \<open>io.to(r).emit\<close> reaches every subscriber of \<open>r\<close>;
    \<open>socket.to(r).emit\<close> reaches the subscribers of \<open>r\<close> that are not subscribed to
    the room named by the id of the emitting socket (this is how socket.io leaves the
    sender out: as long as that room holds the sender and nobody else, everybody but
    the sender is reached); an array argument of \<open>to\<close> names several rooms, whose
    subscribers are visited room by room, each socket once; an empty array names no
    room, and then every connected socket is addressed; any other non-string argument
    names no existing room; \<open>socket.emit\<close> reaches that socket alone;
  \<^item> \<open>setTimeout(f, 100)\<close> appends a timer to the queue, \<open>clearTimeout(h)\<close> removes
    the timer with handle \<open>h\<close>, and due timers run in the order they were armed;
  \<^item> an exception that leaves a listener is not caught by anything in the source and
    ends the run.
  Strings are sequences of 8-bit characters (Latin-1); numbers in payloads are integers.
\<close>

subsection \<open>JavaScript values\<close>

datatype jsval =
    JUndefined
  | JNull
  | JBool bool
  | JNum int
  | JStr string
  | JArr "jsval list"
  | JObj "(string \<times> jsval) list"

text \<open>\<open>!v\<close> is \<open>\<not> truthy v\<close>.\<close>

fun truthy :: "jsval \<Rightarrow> bool" where
  "truthy JUndefined = False"
| "truthy JNull = False"
| "truthy (JBool b) = b"
| "truthy (JNum n) = (n \<noteq> 0)"
| "truthy (JStr s) = (s \<noteq> [])"
| "truthy (JArr vs) = True"
| "truthy (JObj kvs) = True"

text \<open>\<open>typeof v === "string"\<close>.\<close>

fun is_string :: "jsval \<Rightarrow> bool" where
  "is_string (JStr s) = True"
| "is_string v = False"

fun str_of :: "jsval \<Rightarrow> string" where
  "str_of (JStr s) = s"
| "str_of v = []"

text \<open>
  \<open>v.k\<close> for a value \<open>v\<close> that is neither \<open>null\<close> nor \<open>undefined\<close> and one of the
  keys \<open>roomId\<close>, \<open>userName\<close>, \<open>code\<close>, \<open>language\<close>: only an object can carry them. An
  object is an association list whose first binding of a key is the effective one.
\<close>

fun jsprop :: "jsval \<Rightarrow> string \<Rightarrow> jsval" where
  "jsprop (JObj kvs) k = (case map_of kvs k of Some v \<Rightarrow> v | None \<Rightarrow> JUndefined)"
| "jsprop v k = JUndefined"

datatype error = TypeError

text \<open>
  The parameter pattern \<open>({ roomId, code } = {})\<close>: \<open>undefined\<close> takes the default
  \<open>{}\<close>, \<open>null\<close> cannot be destructured and throws, every other value is read by
  property access.
\<close>

fun destructure :: "jsval \<Rightarrow> error + jsval" where
  "destructure JUndefined = Inr (JObj [])"
| "destructure JNull = Inl TypeError"
| "destructure v = Inr v"

text \<open>\<open>String.prototype.trim\<close> over the 8-bit alphabet.\<close>

definition is_ws :: "char \<Rightarrow> bool" where
  "is_ws c = (of_char c \<in> {9, 10, 11, 12, 13, 32, 160 :: nat})"

definition trim :: "string \<Rightarrow> string" where
  "trim s = rev (dropWhile is_ws (rev (dropWhile is_ws s)))"

text \<open>A JavaScript \<open>Set\<close> of strings: a duplicate-free list in insertion order.\<close>

definition set_add :: "string \<Rightarrow> string list \<Rightarrow> string list" where
  "set_add x xs = (if x \<in> set xs then xs else xs @ [x])"

definition set_delete :: "string \<Rightarrow> string list \<Rightarrow> string list" where
  "set_delete x xs = removeAll x xs"

text \<open>\<open>Array.from(set)\<close> as a payload.\<close>

definition roster :: "string list \<Rightarrow> jsval" where
  "roster ns = JArr (map JStr ns)"

text \<open>Truthiness of a field that holds \<open>null\<close> or a string.\<close>

fun truthy_field :: "string option \<Rightarrow> bool" where
  "truthy_field None = False"
| "truthy_field (Some v) = (v \<noteq> [])"

subsection \<open>Server state\<close>

type_synonym sid = string

record sockdata =
  currentRoom :: "string option"
  userName :: "string option"
  codeDebounceTimer :: "nat option"
  pendingCode :: "string option"
  connected :: bool

text \<open>
  A pending \<open>setTimeout\<close>: its handle, the socket and the \<open>roomId\<close> its callback closes
  over, and the clock value from which it is due.
\<close>

record timer =
  tid :: nat
  owner :: sid
  troom :: string
  due :: nat

datatype target =
    ToSocket sid
  | ToRoom string
  | ToOthers sid jsval

record emission =
  target :: target
  ev :: string
  payload :: jsval
  rcpts :: "sid list"

record server =
  rooms :: "string \<rightharpoonup> string list"
  socks :: "sid \<rightharpoonup> sockdata"
  adapter :: "string \<Rightarrow> sid list"
  sids :: "sid list"
  timers :: "timer list"
  nextTimer :: nat
  now :: nat
  out :: "emission list"

definition init :: server where
  "init = \<lparr>rooms = Map.empty, socks = Map.empty, adapter = (\<lambda>r. []), sids = [],
           timers = [], nextTimer = 0, now = 0, out = []\<rparr>"

definition data :: "server \<Rightarrow> sid \<Rightarrow> sockdata" where
  "data s c = the (socks s c)"

text \<open>Assignment to fields of \<open>socket.data\<close>; a socket that was never created has none.\<close>

definition upd :: "sid \<Rightarrow> (sockdata \<Rightarrow> sockdata) \<Rightarrow> server \<Rightarrow> server" where
  "upd c f s =
     (case socks s c of None \<Rightarrow> s | Some d \<Rightarrow> s\<lparr>socks := (socks s)(c \<mapsto> f d)\<rparr>)"

definition live :: "server \<Rightarrow> sid \<Rightarrow> bool" where
  "live s c = (case socks s c of None \<Rightarrow> False | Some d \<Rightarrow> connected d)"

subsection \<open>socket.io and timer primitives\<close>

definition socket_join :: "sid \<Rightarrow> string \<Rightarrow> server \<Rightarrow> server" where
  "socket_join c r s =
     s\<lparr>adapter := (adapter s)(r := (if c \<in> set (adapter s r) then adapter s r
                                      else adapter s r @ [c])),
       sids := (if c \<in> set (sids s) then sids s else sids s @ [c])\<rparr>"

definition socket_leave :: "sid \<Rightarrow> string \<Rightarrow> server \<Rightarrow> server" where
  "socket_leave c r s = s\<lparr>adapter := (adapter s)(r := removeAll c (adapter s r))\<rparr>"

fun room_of :: "(string \<Rightarrow> sid list) \<Rightarrow> jsval \<Rightarrow> sid list" where
  "room_of ad (JStr r) = ad r"
| "room_of ad v = []"

text \<open>Each element once, at the place of its first occurrence.\<close>

definition first_occurrences :: "'a list \<Rightarrow> 'a list" where
  "first_occurrences xs = rev (remdups (rev xs))"

text \<open>The sockets that \<open>to(v)\<close> addresses, before any exclusion.\<close>

fun subscribers :: "server \<Rightarrow> jsval \<Rightarrow> sid list" where
  "subscribers s (JStr r) = adapter s r"
| "subscribers s (JArr []) = sids s"
| "subscribers s (JArr vs) = first_occurrences (concat (map (room_of (adapter s)) vs))"
| "subscribers s v = []"

definition emit_socket :: "sid \<Rightarrow> string \<Rightarrow> jsval \<Rightarrow> server \<Rightarrow> server" where
  "emit_socket c e p s =
     s\<lparr>out := out s @ [\<lparr>target = ToSocket c, ev = e, payload = p, rcpts = [c]\<rparr>]\<rparr>"

definition emit_room :: "string \<Rightarrow> string \<Rightarrow> jsval \<Rightarrow> server \<Rightarrow> server" where
  "emit_room r e p s =
     s\<lparr>out := out s @ [\<lparr>target = ToRoom r, ev = e, payload = p, rcpts = adapter s r\<rparr>]\<rparr>"

definition emit_others :: "sid \<Rightarrow> jsval \<Rightarrow> string \<Rightarrow> jsval \<Rightarrow> server \<Rightarrow> server" where
  "emit_others c r e p s =
     s\<lparr>out := out s @ [\<lparr>target = ToOthers c r, ev = e, payload = p,
                         rcpts = filter (\<lambda>x. x \<notin> set (adapter s c)) (subscribers s r)\<rparr>]\<rparr>"

definition setTimeout :: "sid \<Rightarrow> string \<Rightarrow> nat \<Rightarrow> server \<Rightarrow> server" where
  "setTimeout c r ms s =
     s\<lparr>timers := timers s @ [\<lparr>tid = nextTimer s, owner = c, troom = r, due = now s + ms\<rparr>],
       nextTimer := Suc (nextTimer s)\<rparr>"

definition clearTimeout :: "nat \<Rightarrow> server \<Rightarrow> server" where
  "clearTimeout h s = s\<lparr>timers := filter (\<lambda>t. tid t \<noteq> h) (timers s)\<rparr>"

subsection \<open>Handlers\<close>

definition on_connection :: "sid \<Rightarrow> server \<Rightarrow> server" where
  "on_connection c s =
     socket_join c c
       (s\<lparr>socks := (socks s)(c \<mapsto> \<lparr>currentRoom = None, userName = None,
                                    codeDebounceTimer = None, pendingCode = None,
                                    connected = True\<rparr>)\<rparr>)"

definition safeLeaveRoom :: "string option \<Rightarrow> string option \<Rightarrow> server \<Rightarrow> server" where
  "safeLeaveRoom roomId uName s =
     (case roomId of
        None \<Rightarrow> s
      | Some r \<Rightarrow>
          if r = [] \<or> rooms s r = None then s
          else
            let ns = (case uName of None \<Rightarrow> the (rooms s r)
                      | Some n \<Rightarrow> set_delete n (the (rooms s r)));
                s1 = s\<lparr>rooms := (rooms s)(r \<mapsto> ns)\<rparr>;
                s2 = (if ns = [] then s1\<lparr>rooms := (rooms s1)(r := None)\<rparr> else s1)
            in emit_room r ''userJoined''
                 (case rooms s2 r of Some xs \<Rightarrow> roster xs | None \<Rightarrow> roster []) s2)"

definition on_join :: "sid \<Rightarrow> jsval \<Rightarrow> server \<Rightarrow> server" where
  "on_join c p s =
     (if \<not> truthy p \<or> \<not> is_string (jsprop p ''roomId'')
         \<or> trim (str_of (jsprop p ''roomId'')) = []
      then emit_socket c ''error''
             (JObj [(''message'', JStr ''Invalid or missing roomId in join'')]) s
      else if \<not> truthy p \<or> \<not> is_string (jsprop p ''userName'')
         \<or> trim (str_of (jsprop p ''userName'')) = []
      then emit_socket c ''error''
             (JObj [(''message'', JStr ''Invalid or missing userName in join'')]) s
      else
        let roomId = str_of (jsprop p ''roomId'');
            uName = str_of (jsprop p ''userName'');
            s1 = (if truthy_field (currentRoom (data s c))
                  then socket_leave c (the (currentRoom (data s c)))
                         (safeLeaveRoom (currentRoom (data s c)) (userName (data s c)) s)
                  else s);
            s2 = socket_join c roomId s1;
            s3 = upd c (\<lambda>d. d\<lparr>currentRoom := Some roomId, userName := Some uName\<rparr>) s2;
            s4 = (if rooms s3 roomId = None
                  then s3\<lparr>rooms := (rooms s3)(roomId \<mapsto> [])\<rparr> else s3);
            s5 = s4\<lparr>rooms := (rooms s4)(roomId \<mapsto> set_add uName (the (rooms s4 roomId)))\<rparr>
        in emit_room roomId ''userJoined'' (roster (the (rooms s5 roomId))) s5)"

text \<open>The callback armed by \<open>codeChange\<close>, for socket \<open>c\<close> and the captured \<open>roomId\<close>.\<close>

definition flush :: "sid \<Rightarrow> string \<Rightarrow> server \<Rightarrow> server" where
  "flush c roomId s =
     upd c (\<lambda>d. d\<lparr>pendingCode := None, codeDebounceTimer := None\<rparr>)
       (emit_others c (JStr roomId) ''codeUpdate''
          (case pendingCode (data s c) of None \<Rightarrow> JNull | Some x \<Rightarrow> JStr x) s)"

definition on_codeChange :: "sid \<Rightarrow> jsval \<Rightarrow> server \<Rightarrow> error + server" where
  "on_codeChange c arg s =
     (case destructure arg of
        Inl e \<Rightarrow> Inl e
      | Inr p \<Rightarrow>
          Inr (if \<not> is_string (jsprop p ''roomId'') \<or> \<not> truthy (jsprop p ''roomId'') then s
               else if \<not> is_string (jsprop p ''code'') then s
               else if currentRoom (data s c) \<noteq> Some (str_of (jsprop p ''roomId'')) then s
               else
                 let s1 = upd c (\<lambda>d. d\<lparr>pendingCode := Some (str_of (jsprop p ''code''))\<rparr>) s;
                     s2 = (case codeDebounceTimer (data s1 c) of
                             Some h \<Rightarrow> clearTimeout h s1
                           | None \<Rightarrow> s1);
                     s3 = setTimeout c (str_of (jsprop p ''roomId'')) 100 s2
                 in upd c (\<lambda>d. d\<lparr>codeDebounceTimer := Some (nextTimer s2)\<rparr>) s3))"

definition on_leaveRoom :: "sid \<Rightarrow> server \<Rightarrow> server" where
  "on_leaveRoom c s =
     (let s1 = (if truthy_field (currentRoom (data s c)) \<and> truthy_field (userName (data s c))
                then socket_leave c (the (currentRoom (data s c)))
                       (safeLeaveRoom (currentRoom (data s c)) (userName (data s c)) s)
                else s)
      in upd c (\<lambda>d. d\<lparr>currentRoom := None, userName := None\<rparr>) s1)"

definition on_typing :: "sid \<Rightarrow> jsval \<Rightarrow> server \<Rightarrow> error + server" where
  "on_typing c arg s =
     (case destructure arg of
        Inl e \<Rightarrow> Inl e
      | Inr p \<Rightarrow> Inr (emit_others c (jsprop p ''roomId'') ''userTyping'' (jsprop p ''userName'') s))"

definition on_languageChange :: "sid \<Rightarrow> jsval \<Rightarrow> server \<Rightarrow> error + server" where
  "on_languageChange c arg s =
     (case destructure arg of
        Inl e \<Rightarrow> Inl e
      | Inr p \<Rightarrow>
          Inr (if \<not> is_string (jsprop p ''roomId'') \<or> \<not> is_string (jsprop p ''language'') then s
               else emit_room (str_of (jsprop p ''roomId'')) ''languageUpdate''
                      (jsprop p ''language'') s))"

text \<open>What socket.io does to a socket whose transport closed, before the listener runs.\<close>

definition transport_close :: "sid \<Rightarrow> server \<Rightarrow> server" where
  "transport_close c s =
     upd c (\<lambda>d. d\<lparr>connected := False\<rparr>)
       (s\<lparr>adapter := (\<lambda>r. removeAll c (adapter s r)), sids := removeAll c (sids s)\<rparr>)"

definition on_disconnect :: "sid \<Rightarrow> server \<Rightarrow> server" where
  "on_disconnect c s =
     (let s1 = (if truthy_field (currentRoom (data s c)) \<and> truthy_field (userName (data s c))
                then safeLeaveRoom (currentRoom (data s c)) (userName (data s c)) s
                else s)
      in case codeDebounceTimer (data s1 c) of
           Some h \<Rightarrow>
             upd c (\<lambda>d. d\<lparr>codeDebounceTimer := None, pendingCode := None\<rparr>) (clearTimeout h s1)
         | None \<Rightarrow> s1)"

subsection \<open>The event loop\<close>

text \<open>
  The clock advances by \<open>d\<close> milliseconds; the timers that are then due leave the queue
  and their callbacks run in queue order.
\<close>

definition is_due :: "nat \<Rightarrow> timer \<Rightarrow> bool" where
  "is_due t tm = (due tm \<le> t)"

definition elapse :: "nat \<Rightarrow> server \<Rightarrow> server" where
  "elapse d s =
     fold (\<lambda>tm. flush (owner tm) (troom tm))
       (filter (is_due (now s + d)) (timers s))
       (s\<lparr>now := now s + d, timers := filter (\<lambda>tm. \<not> is_due (now s + d) tm) (timers s)\<rparr>)"

datatype event =
    Connect sid
  | Join sid jsval
  | CodeChange sid jsval
  | LeaveRoom sid
  | Typing sid jsval
  | LanguageChange sid jsval
  | Disconnect sid
  | Elapse nat

text \<open>
  A socket id names one connection for ever; listeners exist only on a connected
  socket, so an event for any other id has no effect.
\<close>

fun step :: "event \<Rightarrow> server \<Rightarrow> error + server" where
  "step (Connect c) s = Inr (if socks s c = None then on_connection c s else s)"
| "step (Join c p) s = Inr (if live s c then on_join c p s else s)"
| "step (CodeChange c p) s = (if live s c then on_codeChange c p s else Inr s)"
| "step (LeaveRoom c) s = Inr (if live s c then on_leaveRoom c s else s)"
| "step (Typing c p) s = (if live s c then on_typing c p s else Inr s)"
| "step (LanguageChange c p) s = (if live s c then on_languageChange c p s else Inr s)"
| "step (Disconnect c) s =
     Inr (if live s c then on_disconnect c (transport_close c s) else s)"
| "step (Elapse d) s = Inr (elapse d s)"

fun run :: "event list \<Rightarrow> server \<Rightarrow> error + server" where
  "run [] s = Inr s"
| "run (e # es) s = (case step e s of Inl x \<Rightarrow> Inl x | Inr s' \<Rightarrow> run es s')"

inductive reachable :: "server \<Rightarrow> bool" where
  start: "reachable init"
| after: "reachable s \<Longrightarrow> step e s = Inr s' \<Longrightarrow> reachable s'"


subsection \<open>Runs and observations\<close>

text \<open>The state a run from the initial state ends in (the initial state if the run throws).\<close>

definition state_after :: "event list \<Rightarrow> server" where
  "state_after evs = (case run evs init of Inr s \<Rightarrow> s | Inl e \<Rightarrow> init)"

text \<open>Everything emitted by a run from the initial state, or the exception that ended it.\<close>

definition emitted :: "event list \<Rightarrow> error + emission list" where
  "emitted evs = (case run evs init of Inl e \<Rightarrow> Inl e | Inr s \<Rightarrow> Inr (out s))"

text \<open>The participant set the directory holds for a room; a room without entry has none.\<close>

definition participants :: "server \<Rightarrow> string \<Rightarrow> string list" where
  "participants s r = (case rooms s r of None \<Rightarrow> [] | Some ns \<Rightarrow> ns)"

text \<open>Payloads as the client builds them.\<close>

definition join_payload :: "string \<Rightarrow> string \<Rightarrow> jsval" where
  "join_payload r n = JObj [(''roomId'', JStr r), (''userName'', JStr n)]"

definition code_payload :: "string \<Rightarrow> string \<Rightarrow> jsval" where
  "code_payload r x = JObj [(''roomId'', JStr r), (''code'', JStr x)]"

subsection \<open>Invariants\<close>

definition paired :: "server \<Rightarrow> bool" where
  "paired s = (\<forall>c d. socks s c = Some d \<longrightarrow> (currentRoom d = None) = (userName d = None))"

definition rosters_nonempty :: "server \<Rightarrow> bool" where
  "rosters_nonempty s = (\<forall>r ns. rooms s r = Some ns \<longrightarrow> ns \<noteq> [])"

text \<open>
  The part of a socket's state that says where it is: room, name and whether it is
  connected. Two states have the same membership when they agree on it, on the
  directory and on the subscriptions.
\<close>

definition membership :: "sockdata \<Rightarrow> string option \<times> string option \<times> bool" where
  "membership d = (currentRoom d, userName d, connected d)"

definition same_membership :: "server \<Rightarrow> server \<Rightarrow> bool" where
  "same_membership s s' =
     (rooms s' = rooms s \<and> adapter s' = adapter s
      \<and> (\<forall>c. map_option membership (socks s' c) = map_option membership (socks s c)))"

definition well_named :: "server \<Rightarrow> bool" where
  "well_named s =
     (\<forall>c d. socks s c = Some d \<longrightarrow> currentRoom d \<noteq> Some [] \<and> userName d \<noteq> Some [])"

definition subscribed :: "server \<Rightarrow> bool" where
  "subscribed s =
     (\<forall>c d r. socks s c = Some d \<and> connected d \<and> currentRoom d = Some r
        \<longrightarrow> c \<in> set (adapter s r))"

definition backed :: "server \<Rightarrow> bool" where
  "backed s =
     (\<forall>r ns n. rooms s r = Some ns \<and> n \<in> set ns
        \<longrightarrow> (\<exists>c d. socks s c = Some d \<and> connected d \<and> currentRoom d = Some r
                   \<and> userName d = Some n))"


text \<open>The state of the scenarios: Alice on socket x and Bob on socket y share room R.\<close>

definition alice_and_bob :: server where
  "alice_and_bob =
     state_after [Connect ''x'', Connect ''y'', Join ''x'' (join_payload ''R'' ''Alice''),
                  Join ''y'' (join_payload ''R'' ''Bob'')]"

text \<open>A \<open>codeChange\<close> payload that names room \<open>r\<close> and carries a string of code.\<close>

definition is_edit :: "string \<Rightarrow> jsval \<Rightarrow> bool" where
  "is_edit r p = (jsprop p ''roomId'' = JStr r \<and> is_string (jsprop p ''code''))"

text \<open>
  The timer queue and the handles kept in \<open>socket.data\<close> fit together: handles in the
  queue are distinct, every queued timer is the one its owner's handle names, and no two
  sockets hold the same handle.
\<close>

definition timers_ok :: "server \<Rightarrow> bool" where
  "timers_ok s =
     (distinct (map tid (timers s))
      \<and> (\<forall>tm \<in> set (timers s). \<exists>d. socks s (owner tm) = Some d
                                     \<and> codeDebounceTimer d = Some (tid tm))
      \<and> (\<forall>c d h. socks s c = Some d \<and> codeDebounceTimer d = Some h \<longrightarrow> h < nextTimer s)
      \<and> (\<forall>c c' d d' h. socks s c = Some d \<and> codeDebounceTimer d = Some h
                        \<and> socks s c' = Some d' \<and> codeDebounceTimer d' = Some h \<longrightarrow> c = c'))"

definition same_timers :: "server \<Rightarrow> server \<Rightarrow> bool" where
  "same_timers s s' =
     (timers s' = timers s \<and> nextTimer s' = nextTimer s
      \<and> (\<forall>c. map_option codeDebounceTimer (socks s' c) = map_option codeDebounceTimer (socks s c)))"

text \<open>The socket an event comes from; the passing of time comes from none.\<close>

fun sender :: "event \<Rightarrow> sid option" where
  "sender (Connect c) = Some c"
| "sender (Join c p) = Some c"
| "sender (CodeChange c p) = Some c"
| "sender (LeaveRoom c) = Some c"
| "sender (Typing c p) = Some c"
| "sender (LanguageChange c p) = Some c"
| "sender (Disconnect c) = Some c"
| "sender (Elapse d) = None"

text \<open>
  \<open>window c r left es\<close> follows the debounce window of socket \<open>c\<close>, of which \<open>left\<close>
  milliseconds remain, through the events \<open>es\<close>: time may pass only while the window
  stays open, an edit of \<open>c\<close> for room \<open>r\<close> reopens it for 100 ms, and \<open>c\<close> sends no
  other \<open>codeChange\<close> and no \<open>join\<close>, \<open>leaveRoom\<close> or disconnect. The result is what
  remains of the window at the end.
\<close>

fun window :: "sid \<Rightarrow> string \<Rightarrow> nat \<Rightarrow> event list \<Rightarrow> nat option" where
  "window c r left [] = Some left"
| "window c r left (Elapse d # es) = (if d < left then window c r (left - d) es else None)"
| "window c r left (CodeChange c' p # es) =
     (if c' = c then (if is_edit r p then window c r 100 es else None)
      else window c r left es)"
| "window c r left (Typing c' p # es) = window c r left es"
| "window c r left (LanguageChange c' p # es) = window c r left es"
| "window c r left (e # es) = (if sender e = Some c then None else window c r left es)"

text \<open>The code of the last edit of \<open>c\<close> among the events, \<open>x\<close> if there is none.\<close>

fun last_code :: "sid \<Rightarrow> string \<Rightarrow> event list \<Rightarrow> string" where
  "last_code c x [] = x"
| "last_code c x (CodeChange c' p # es) =
     (if c' = c then last_code c (str_of (jsprop p ''code'')) es else last_code c x es)"
| "last_code c x (e # es) = last_code c x es"

text \<open>The \<open>codeUpdate\<close> broadcasts that socket \<open>c\<close> made, among some emissions.\<close>

fun made_by :: "sid \<Rightarrow> target \<Rightarrow> bool" where
  "made_by c (ToOthers c' r) = (c' = c)"
| "made_by c t = False"

definition code_updates_by :: "sid \<Rightarrow> emission list \<Rightarrow> emission list" where
  "code_updates_by c es = filter (\<lambda>e. ev e = ''codeUpdate'' \<and> made_by c (target e)) es"

text \<open>
  Socket \<open>c\<close>, in room \<open>r\<close>, holds the pending edit \<open>x\<close> and exactly one timer, for
  room \<open>r\<close>, due in \<open>left\<close> milliseconds.
\<close>

definition armed :: "server \<Rightarrow> sid \<Rightarrow> string \<Rightarrow> string \<Rightarrow> nat \<Rightarrow> bool" where
  "armed s c r x left =
     (\<exists>d h. socks s c = Some d \<and> connected d \<and> currentRoom d = Some r
            \<and> pendingCode d = Some x \<and> codeDebounceTimer d = Some h
            \<and> filter (\<lambda>t. owner t = c) (timers s)
                = [\<lparr>tid = h, owner = c, troom = r, due = now s + left\<rparr>]
            \<and> 0 < left)"

text \<open>No two connected sockets are in the same room under the same name.\<close>

definition distinct_names :: "server \<Rightarrow> bool" where
  "distinct_names s =
     (\<forall>c1 c2 d1 d2. socks s c1 = Some d1 \<and> connected d1 \<and> socks s c2 = Some d2 \<and> connected d2
                    \<and> currentRoom d1 \<noteq> None \<and> currentRoom d1 = currentRoom d2
                    \<and> userName d1 = userName d2
        \<longrightarrow> c1 = c2)"

text \<open>The states reached through states without such a pair.\<close>

inductive reachable_distinct :: "server \<Rightarrow> bool" where
  start_distinct: "reachable_distinct init"
| after_distinct:
    "reachable_distinct s \<Longrightarrow> step e s = Inr s' \<Longrightarrow> distinct_names s' \<Longrightarrow> reachable_distinct s'"

text \<open>The name of every connected socket that is in a room stands in the roster of that room.\<close>

definition listed :: "server \<Rightarrow> bool" where
  "listed s =
     (\<forall>c d r n. socks s c = Some d \<and> connected d \<and> currentRoom d = Some r \<and> userName d = Some n
        \<longrightarrow> n \<in> set (participants s r))"


section \<open>Frame lemmas\<close>

lemma emit_socket_frame [simp]:
  "rooms (emit_socket c e p s) = rooms s" "socks (emit_socket c e p s) = socks s"
  "adapter (emit_socket c e p s) = adapter s" "timers (emit_socket c e p s) = timers s"
  "nextTimer (emit_socket c e p s) = nextTimer s" "now (emit_socket c e p s) = now s"
  by (simp_all add: emit_socket_def)

lemma emit_room_frame [simp]:
  "rooms (emit_room r e p s) = rooms s" "socks (emit_room r e p s) = socks s"
  "adapter (emit_room r e p s) = adapter s" "timers (emit_room r e p s) = timers s"
  "nextTimer (emit_room r e p s) = nextTimer s" "now (emit_room r e p s) = now s"
  by (simp_all add: emit_room_def)

lemma emit_others_frame [simp]:
  "rooms (emit_others c r e p s) = rooms s" "socks (emit_others c r e p s) = socks s"
  "adapter (emit_others c r e p s) = adapter s" "timers (emit_others c r e p s) = timers s"
  "nextTimer (emit_others c r e p s) = nextTimer s" "now (emit_others c r e p s) = now s"
  by (simp_all add: emit_others_def)

lemma socket_join_frame [simp]:
  "rooms (socket_join c r s) = rooms s" "socks (socket_join c r s) = socks s"
  "timers (socket_join c r s) = timers s" "nextTimer (socket_join c r s) = nextTimer s"
  "now (socket_join c r s) = now s" "out (socket_join c r s) = out s"
  by (simp_all add: socket_join_def)

lemma socket_leave_frame [simp]:
  "rooms (socket_leave c r s) = rooms s" "socks (socket_leave c r s) = socks s"
  "timers (socket_leave c r s) = timers s" "nextTimer (socket_leave c r s) = nextTimer s"
  "now (socket_leave c r s) = now s" "out (socket_leave c r s) = out s"
  by (simp_all add: socket_leave_def)

lemma setTimeout_frame [simp]:
  "rooms (setTimeout c r ms s) = rooms s" "socks (setTimeout c r ms s) = socks s"
  "adapter (setTimeout c r ms s) = adapter s" "now (setTimeout c r ms s) = now s"
  "out (setTimeout c r ms s) = out s"
  by (simp_all add: setTimeout_def)

lemma clearTimeout_frame [simp]:
  "rooms (clearTimeout h s) = rooms s" "socks (clearTimeout h s) = socks s"
  "adapter (clearTimeout h s) = adapter s" "now (clearTimeout h s) = now s"
  "out (clearTimeout h s) = out s" "nextTimer (clearTimeout h s) = nextTimer s"
  by (simp_all add: clearTimeout_def)

lemma upd_frame [simp]:
  "rooms (upd c f s) = rooms s" "adapter (upd c f s) = adapter s"
  "timers (upd c f s) = timers s" "nextTimer (upd c f s) = nextTimer s"
  "now (upd c f s) = now s" "out (upd c f s) = out s"
  by (simp_all add: upd_def split: option.splits)

lemma socks_upd:
  "socks (upd c f s) = (case socks s c of None \<Rightarrow> socks s | Some d \<Rightarrow> (socks s)(c \<mapsto> f d))"
  by (simp add: upd_def split: option.splits)

lemma safeLeaveRoom_frame [simp]:
  "socks (safeLeaveRoom ro un s) = socks s" "adapter (safeLeaveRoom ro un s) = adapter s"
  "timers (safeLeaveRoom ro un s) = timers s" "nextTimer (safeLeaveRoom ro un s) = nextTimer s"
  "now (safeLeaveRoom ro un s) = now s"
  by (simp_all add: safeLeaveRoom_def Let_def split: option.splits)

lemma data_frame [simp]:
  "data (emit_socket c e p s) = data s" "data (emit_room r e p s) = data s"
  "data (emit_others c rv e p s) = data s" "data (socket_join c r s) = data s"
  "data (socket_leave c r s) = data s" "data (setTimeout c r ms s) = data s"
  "data (clearTimeout h s) = data s" "data (safeLeaveRoom ro un s) = data s"
  by (simp_all add: data_def fun_eq_iff)

lemma live_frame [simp]:
  "live (emit_socket c e p s) = live s" "live (emit_room r e p s) = live s"
  "live (emit_others c rv e p s) = live s" "live (socket_join c r s) = live s"
  "live (socket_leave c r s) = live s" "live (setTimeout c r ms s) = live s"
  "live (clearTimeout h s) = live s" "live (safeLeaveRoom ro un s) = live s"
  by (simp_all add: live_def fun_eq_iff)

lemma data_upd:
  "data (upd c f s) c' = (if c' = c \<and> socks s c \<noteq> None then f (data s c) else data s c')"
  by (auto simp: data_def upd_def split: option.splits)

lemma socks_flush:
  "socks (flush c r s) =
     (case socks s c of None \<Rightarrow> socks s
      | Some d \<Rightarrow> (socks s)(c \<mapsto> d\<lparr>pendingCode := None, codeDebounceTimer := None\<rparr>))"
  by (simp add: flush_def socks_upd split: option.splits)

lemma flush_frame [simp]:
  "rooms (flush c r s) = rooms s" "adapter (flush c r s) = adapter s"
  "timers (flush c r s) = timers s" "nextTimer (flush c r s) = nextTimer s"
  "now (flush c r s) = now s"
  by (simp_all add: flush_def)

lemma fold_flush_frame [simp]:
  "rooms (fold (\<lambda>tm. flush (owner tm) (troom tm)) tms s) = rooms s"
  "adapter (fold (\<lambda>tm. flush (owner tm) (troom tm)) tms s) = adapter s"
  "timers (fold (\<lambda>tm. flush (owner tm) (troom tm)) tms s) = timers s"
  "nextTimer (fold (\<lambda>tm. flush (owner tm) (troom tm)) tms s) = nextTimer s"
  "now (fold (\<lambda>tm. flush (owner tm) (troom tm)) tms s) = now s"
  by (induction tms arbitrary: s) simp_all

lemma elapse_frame [simp]:
  "rooms (elapse d s) = rooms s" "adapter (elapse d s) = adapter s"
  "nextTimer (elapse d s) = nextTimer s" "now (elapse d s) = now s + d"
  "timers (elapse d s) = filter (\<lambda>tm. \<not> is_due (now s + d) tm) (timers s)"
  by (simp_all add: elapse_def)

lemma paired_flush: "paired s \<Longrightarrow> paired (flush c r s)"
  by (auto simp: paired_def socks_flush split: option.splits if_splits)

lemma paired_fold_flush:
  "paired s \<Longrightarrow> paired (fold (\<lambda>tm. flush (owner tm) (troom tm)) tms s)"
  by (induction tms arbitrary: s) (simp_all add: paired_flush)

lemma paired_elapse: "paired s \<Longrightarrow> paired (elapse d s)"
  unfolding elapse_def by (rule paired_fold_flush) (simp add: paired_def)

lemma paired_on_connection: "paired s \<Longrightarrow> paired (on_connection c s)"
  by (simp add: paired_def on_connection_def)

lemma paired_on_join: "paired s \<Longrightarrow> paired (on_join c p s)"
  by (auto simp: paired_def on_join_def Let_def socks_upd split: option.splits if_splits)

lemma paired_on_leaveRoom: "paired s \<Longrightarrow> paired (on_leaveRoom c s)"
  by (auto simp: paired_def on_leaveRoom_def Let_def socks_upd split: option.splits if_splits)

lemma paired_on_codeChange: "paired s \<Longrightarrow> on_codeChange c p s = Inr s' \<Longrightarrow> paired s'"
  by (auto simp: paired_def on_codeChange_def Let_def socks_upd
           split: sum.splits option.splits if_splits)

lemma paired_on_typing: "paired s \<Longrightarrow> on_typing c p s = Inr s' \<Longrightarrow> paired s'"
  by (auto simp: on_typing_def paired_def split: sum.splits)

lemma paired_on_languageChange: "paired s \<Longrightarrow> on_languageChange c p s = Inr s' \<Longrightarrow> paired s'"
  by (auto simp: on_languageChange_def paired_def split: sum.splits if_splits)

lemma paired_transport_close: "paired s \<Longrightarrow> paired (transport_close c s)"
  by (auto simp: paired_def transport_close_def socks_upd split: option.splits if_splits)

lemma paired_on_disconnect: "paired s \<Longrightarrow> paired (on_disconnect c s)"
  by (auto simp: paired_def on_disconnect_def Let_def socks_upd data_def
           split: option.splits if_splits)

lemma paired_step: "paired s \<Longrightarrow> step e s = Inr s' \<Longrightarrow> paired s'"
  by (cases e)
     (auto simp: paired_on_connection paired_on_join paired_on_leaveRoom paired_elapse
                 paired_on_disconnect paired_transport_close
           dest: paired_on_codeChange paired_on_typing paired_on_languageChange
           split: if_splits)

lemma paired_init: "paired init"
  by (simp add: paired_def init_def)

lemma reachable_paired: "reachable s \<Longrightarrow> paired s"
  by (induction rule: reachable.induct) (auto intro: paired_init paired_step)


lemmas model_defs =
  init_def state_after_def emitted_def participants_def join_payload_def code_payload_def
  data_def upd_def live_def socket_join_def socket_leave_def emit_socket_def emit_room_def
  emit_others_def setTimeout_def clearTimeout_def on_connection_def safeLeaveRoom_def
  on_join_def flush_def on_codeChange_def on_leaveRoom_def on_typing_def
  on_languageChange_def transport_close_def on_disconnect_def is_due_def elapse_def
  trim_def is_ws_def set_add_def set_delete_def roster_def first_occurrences_def Let_def

lemma reachable_run: "reachable s \<Longrightarrow> run evs s = Inr s' \<Longrightarrow> reachable s'"
proof (induction evs arbitrary: s)
  case Nil
  then show ?case by simp
next
  case (Cons e es)
  then show ?case
    by (auto split: sum.splits intro: reachable.after)
qed

lemma reachable_state_after: "reachable (state_after evs)"
  by (auto simp: state_after_def split: sum.splits intro: reachable.start reachable_run)

lemma reachable_alice_and_bob: "reachable alice_and_bob"
  unfolding alice_and_bob_def by (rule reachable_state_after)

lemma alice_and_bob_facts:
  "live alice_and_bob ''x''" "live alice_and_bob ''y''"
  "currentRoom (data alice_and_bob ''x'') = Some ''R''"
  "userName (data alice_and_bob ''x'') = Some ''Alice''"
  "rooms alice_and_bob ''R'' = Some [''Alice'', ''Bob'']"
  "adapter alice_and_bob ''R'' = [''x'', ''y'']"
  "out alice_and_bob =
     [\<lparr>target = ToRoom ''R'', ev = ''userJoined'', payload = roster [''Alice''],
       rcpts = [''x'']\<rparr>,
      \<lparr>target = ToRoom ''R'', ev = ''userJoined'', payload = roster [''Alice'', ''Bob''],
       rcpts = [''x'', ''y'']\<rparr>]"
  by (simp_all add: alice_and_bob_def model_defs)

section \<open>The room directory\<close>

lemma rooms_safeLeaveRoom:
  "rooms (safeLeaveRoom ro un s) =
     (case ro of None \<Rightarrow> rooms s
      | Some r \<Rightarrow>
          if r = [] \<or> rooms s r = None then rooms s
          else if (case un of None \<Rightarrow> the (rooms s r) | Some n \<Rightarrow> set_delete n (the (rooms s r))) = []
               then (rooms s)(r := None)
               else (rooms s)(r \<mapsto> (case un of None \<Rightarrow> the (rooms s r)
                                        | Some n \<Rightarrow> set_delete n (the (rooms s r)))))"
  by (simp add: safeLeaveRoom_def Let_def split: option.splits)

lemma nonempty_safeLeaveRoom: "rosters_nonempty s \<Longrightarrow> rosters_nonempty (safeLeaveRoom ro un s)"
  by (auto simp: rosters_nonempty_def rooms_safeLeaveRoom split: option.splits if_splits)

lemma set_add_nonempty [simp]: "set_add x xs \<noteq> []"
  by (auto simp: set_add_def)

lemma rooms_on_join:
  "rooms (on_join c p s) =
     (if \<not> truthy p \<or> \<not> is_string (jsprop p ''roomId'') \<or> trim (str_of (jsprop p ''roomId'')) = []
         \<or> \<not> is_string (jsprop p ''userName'') \<or> trim (str_of (jsprop p ''userName'')) = []
      then rooms s
      else let rs = (if truthy_field (currentRoom (data s c))
                     then rooms (safeLeaveRoom (currentRoom (data s c)) (userName (data s c)) s)
                     else rooms s)
           in rs(str_of (jsprop p ''roomId'') \<mapsto>
                  set_add (str_of (jsprop p ''userName''))
                    (case rs (str_of (jsprop p ''roomId'')) of None \<Rightarrow> [] | Some ns \<Rightarrow> ns)))"
  by (auto simp: on_join_def Let_def split: option.splits)

lemma nonempty_on_join: "rosters_nonempty s \<Longrightarrow> rosters_nonempty (on_join c p s)"
  using nonempty_safeLeaveRoom [of s "currentRoom (data s c)" "userName (data s c)"]
  by (auto simp: rosters_nonempty_def rooms_on_join Let_def split: if_splits)

lemma rooms_on_leaveRoom:
  "rooms (on_leaveRoom c s) =
     (if truthy_field (currentRoom (data s c)) \<and> truthy_field (userName (data s c))
      then rooms (safeLeaveRoom (currentRoom (data s c)) (userName (data s c)) s)
      else rooms s)"
  by (simp add: on_leaveRoom_def Let_def)

lemma rooms_on_codeChange: "on_codeChange c p s = Inr s' \<Longrightarrow> rooms s' = rooms s"
  by (auto simp: on_codeChange_def Let_def split: sum.splits option.splits if_splits)

lemma rooms_on_typing: "on_typing c p s = Inr s' \<Longrightarrow> rooms s' = rooms s"
  by (auto simp: on_typing_def split: sum.splits)

lemma rooms_on_languageChange: "on_languageChange c p s = Inr s' \<Longrightarrow> rooms s' = rooms s"
  by (auto simp: on_languageChange_def split: sum.splits if_splits)

lemma rooms_transport_close [simp]: "rooms (transport_close c s) = rooms s"
  by (simp add: transport_close_def)

lemma rooms_on_disconnect:
  "rooms (on_disconnect c s) =
     (if truthy_field (currentRoom (data s c)) \<and> truthy_field (userName (data s c))
      then rooms (safeLeaveRoom (currentRoom (data s c)) (userName (data s c)) s)
      else rooms s)"
  by (auto simp: on_disconnect_def Let_def split: option.splits)

lemma rooms_on_connection [simp]: "rooms (on_connection c s) = rooms s"
  by (simp add: on_connection_def)

lemma nonempty_same_rooms: "rosters_nonempty s \<Longrightarrow> rooms s' = rooms s \<Longrightarrow> rosters_nonempty s'"
  by (simp add: rosters_nonempty_def)

lemma nonempty_step:
  assumes a: "rosters_nonempty s" "step e s = Inr s'"
  shows "rosters_nonempty s'"
proof (cases e)
  case (Join c p)
  with a show ?thesis by (auto simp: nonempty_on_join split: if_splits)
next
  case (LeaveRoom c)
  have "rosters_nonempty (on_leaveRoom c s)"
    using a(1) nonempty_safeLeaveRoom [OF a(1), of "currentRoom (data s c)" "userName (data s c)"]
    by (simp add: rosters_nonempty_def rooms_on_leaveRoom)
  with a LeaveRoom show ?thesis by (auto split: if_splits)
next
  case (Disconnect c)
  let ?t = "transport_close c s"
  have t: "rosters_nonempty ?t" using a(1) by (simp add: rosters_nonempty_def)
  have "rosters_nonempty (on_disconnect c ?t)"
    using t nonempty_safeLeaveRoom [OF t, of "currentRoom (data ?t c)" "userName (data ?t c)"]
    by (simp add: rosters_nonempty_def rooms_on_disconnect)
  with a Disconnect show ?thesis by (auto split: if_splits)
next
  case (Connect c)
  with a(2) have "rooms s' = rooms s" by (auto split: if_splits)
  with a(1) show ?thesis by (rule nonempty_same_rooms)
next
  case (CodeChange c p)
  with a(2) have "rooms s' = rooms s" by (auto split: if_splits dest: rooms_on_codeChange)
  with a(1) show ?thesis by (rule nonempty_same_rooms)
next
  case (Typing c p)
  with a(2) have "rooms s' = rooms s" by (auto split: if_splits dest: rooms_on_typing)
  with a(1) show ?thesis by (rule nonempty_same_rooms)
next
  case (LanguageChange c p)
  with a(2) have "rooms s' = rooms s" by (auto split: if_splits dest: rooms_on_languageChange)
  with a(1) show ?thesis by (rule nonempty_same_rooms)
next
  case (Elapse d)
  with a(2) have "rooms s' = rooms s" by auto
  with a(1) show ?thesis by (rule nonempty_same_rooms)
qed

lemma reachable_nonempty: "reachable s \<Longrightarrow> rosters_nonempty s"
proof (induction rule: reachable.induct)
  case start
  show ?case by (simp add: rosters_nonempty_def init_def)
next
  case (after s e s')
  from after(3) after(2) show ?case by (rule nonempty_step)
qed

section \<open>The join handler\<close>

lemma trim_nonempty: "trim s \<noteq> [] \<Longrightarrow> s \<noteq> []"
  by (auto simp: trim_def)

lemma jsprop_string_truthy: "jsprop p k = JStr x \<Longrightarrow> truthy p"
  by (cases p) auto

lemma live_socks: "live s c \<Longrightarrow> \<exists>d. socks s c = Some d \<and> connected d"
  by (auto simp: live_def split: option.splits)

lemma removeAll_empty: "removeAll a ys = [] \<Longrightarrow> x \<in> set ys \<Longrightarrow> x = a"
  using set_removeAll [of a ys] by auto

lemma participants_on_join:
  assumes "jsprop p ''roomId'' = JStr r" "trim r \<noteq> []"
      and "jsprop p ''userName'' = JStr n" "trim n \<noteq> []"
  shows "set (participants (on_join c p s) r) =
           insert n (set (participants s r)
                      - (if currentRoom (data s c) = Some r then set_option (userName (data s c)) else {}))"
proof -
  have t: "truthy p" using assms(1) by (rule jsprop_string_truthy)
  have r: "r \<noteq> []" using assms(2) by (rule trim_nonempty)
  show ?thesis
    using assms t r
    by (auto simp: participants_def rooms_on_join rooms_safeLeaveRoom set_add_def set_delete_def Let_def
             split: option.splits if_splits dest: removeAll_empty)
qed


lemma out_safeLeaveRoom:
  "out (safeLeaveRoom ro un s) =
     (case ro of None \<Rightarrow> out s
      | Some r \<Rightarrow>
          if r = [] \<or> rooms s r = None then out s
          else out s @ [\<lparr>target = ToRoom r, ev = ''userJoined'',
                          payload = roster (participants (safeLeaveRoom ro un s) r),
                          rcpts = adapter s r\<rparr>])"
  by (auto simp: safeLeaveRoom_def participants_def emit_room_def Let_def split: option.splits)

lemma participants_safeLeaveRoom:
  "participants (safeLeaveRoom ro un s) r' =
     (case ro of None \<Rightarrow> participants s r'
      | Some r \<Rightarrow>
          if r = [] \<or> rooms s r = None \<or> r' \<noteq> r then participants s r'
          else (case un of None \<Rightarrow> participants s r | Some n \<Rightarrow> set_delete n (participants s r)))"
  by (auto simp: participants_def rooms_safeLeaveRoom split: option.splits)

lemma socks_on_join:
  assumes "jsprop p ''roomId'' = JStr r" "trim r \<noteq> []"
      and "jsprop p ''userName'' = JStr n" "trim n \<noteq> []"
  shows "socks (on_join c p s) =
           (case socks s c of None \<Rightarrow> socks s
            | Some d \<Rightarrow> (socks s)(c \<mapsto> d\<lparr>currentRoom := Some r, userName := Some n\<rparr>))"
  using assms jsprop_string_truthy [OF assms(1)]
  by (auto simp: on_join_def Let_def socks_upd split: option.splits)

lemma adapter_on_join:
  assumes "jsprop p ''roomId'' = JStr r" "trim r \<noteq> []"
      and "jsprop p ''userName'' = JStr n" "trim n \<noteq> []"
  shows "adapter (on_join c p s) =
           adapter (socket_join c r (if truthy_field (currentRoom (data s c))
                                     then socket_leave c (the (currentRoom (data s c))) s else s))"
  using assms jsprop_string_truthy [OF assms(1)]
  by (auto simp: on_join_def Let_def socket_join_def socket_leave_def)

lemma on_join_frame [simp]:
  "timers (on_join c p s) = timers s" "nextTimer (on_join c p s) = nextTimer s"
  "now (on_join c p s) = now s"
  by (simp_all add: on_join_def Let_def)

lemma out_on_join:
  assumes "jsprop p ''roomId'' = JStr r" "trim r \<noteq> []"
      and "jsprop p ''userName'' = JStr n" "trim n \<noteq> []"
  shows "out (on_join c p s) =
           out (if truthy_field (currentRoom (data s c))
                then safeLeaveRoom (currentRoom (data s c)) (userName (data s c)) s else s)
           @ [\<lparr>target = ToRoom r, ev = ''userJoined'',
                payload = roster (participants (on_join c p s) r),
                rcpts = adapter (on_join c p s) r\<rparr>]"
  using assms jsprop_string_truthy [OF assms(1)]
  by (auto simp: on_join_def Let_def emit_room_def participants_def)

section \<open>Membership invariants\<close>

lemma same_membership_refl: "same_membership s s"
  by (simp add: same_membership_def)

lemma same_membership_trans:
  "same_membership s t \<Longrightarrow> same_membership t u \<Longrightarrow> same_membership s u"
  by (simp add: same_membership_def)

lemma same_membership_socksD:
  assumes "same_membership s s'" "socks s' c = Some d'"
  shows "\<exists>d. socks s c = Some d \<and> currentRoom d = currentRoom d' \<and> userName d = userName d'
              \<and> connected d = connected d'"
proof -
  have "map_option membership (socks s' c) = map_option membership (socks s c)"
    using assms(1) by (simp add: same_membership_def)
  with assms(2) show ?thesis
    by (cases "socks s c") (auto simp: membership_def)
qed

lemma same_membership_sym: "same_membership s s' \<Longrightarrow> same_membership s' s"
  by (simp add: same_membership_def)

lemma well_named_same: "same_membership s s' \<Longrightarrow> well_named s \<Longrightarrow> well_named s'"
  unfolding well_named_def by (metis same_membership_socksD)

lemma paired_same: "same_membership s s' \<Longrightarrow> paired s \<Longrightarrow> paired s'"
  unfolding paired_def by (metis same_membership_socksD)

lemma subscribed_same:
  assumes "same_membership s s'" "subscribed s"
  shows "subscribed s'"
  unfolding subscribed_def
proof (intro allI impI)
  fix c d' r
  assume h: "socks s' c = Some d' \<and> connected d' \<and> currentRoom d' = Some r"
  then obtain d where "socks s c = Some d" "connected d" "currentRoom d = Some r"
    using same_membership_socksD [OF assms(1), of c d'] by auto
  then have "c \<in> set (adapter s r)" using assms(2) unfolding subscribed_def by blast
  moreover have "adapter s' = adapter s" using assms(1) by (simp add: same_membership_def)
  ultimately show "c \<in> set (adapter s' r)" by simp
qed

lemma backed_same:
  assumes "same_membership s s'" "backed s"
  shows "backed s'"
  unfolding backed_def
proof (intro allI impI)
  fix r ns n
  assume h: "rooms s' r = Some ns \<and> n \<in> set ns"
  have "rooms s r = Some ns" using h assms(1) by (simp add: same_membership_def)
  with h assms(2) obtain c d where
    d: "socks s c = Some d" "connected d" "currentRoom d = Some r" "userName d = Some n"
    unfolding backed_def by blast
  from same_membership_socksD [OF same_membership_sym [OF assms(1)] d(1)] d(2-4)
  show "\<exists>c d. socks s' c = Some d \<and> connected d \<and> currentRoom d = Some r \<and> userName d = Some n"
    by auto
qed

lemma same_membership_upd:
  "(\<And>d. membership (f d) = membership d) \<Longrightarrow> same_membership s (upd c f s)"
  by (auto simp: same_membership_def socks_upd split: option.splits)

lemma same_membership_frame:
  "same_membership s (emit_socket c e p s)" "same_membership s (emit_room r e p s)"
  "same_membership s (emit_others c rv e p s)" "same_membership s (setTimeout c r ms s)"
  "same_membership s (clearTimeout h s)"
  by (simp_all add: same_membership_def)

lemma same_membership_flush: "same_membership s (flush c r s)"
  unfolding flush_def
  by (rule same_membership_trans [OF same_membership_frame(3) same_membership_upd])
     (simp add: membership_def)

lemma same_membership_fold_flush:
  "same_membership s (fold (\<lambda>tm. flush (owner tm) (troom tm)) tms s)"
proof (induction tms arbitrary: s)
  case Nil
  show ?case by (simp add: same_membership_refl)
next
  case (Cons tm tms)
  show ?case
    using same_membership_trans [OF same_membership_flush Cons.IH] by simp
qed

lemma same_membership_elapse: "same_membership s (elapse d s)"
  unfolding elapse_def
  by (rule same_membership_trans [OF _ same_membership_fold_flush])
     (simp add: same_membership_def)

lemma same_membership_on_codeChange:
  "on_codeChange c p s = Inr s' \<Longrightarrow> same_membership s s'"
  by (auto simp: on_codeChange_def Let_def same_membership_def socks_upd membership_def
           split: sum.splits option.splits if_splits)

lemma same_membership_on_typing: "on_typing c p s = Inr s' \<Longrightarrow> same_membership s s'"
  by (auto simp: on_typing_def same_membership_def split: sum.splits)

lemma same_membership_on_languageChange:
  "on_languageChange c p s = Inr s' \<Longrightarrow> same_membership s s'"
  by (auto simp: on_languageChange_def same_membership_def split: sum.splits if_splits)

lemma socks_on_leaveRoom:
  "socks (on_leaveRoom c s) =
     (case socks s c of None \<Rightarrow> socks s
      | Some d \<Rightarrow> (socks s)(c \<mapsto> d\<lparr>currentRoom := None, userName := None\<rparr>))"
  by (auto simp: on_leaveRoom_def Let_def socks_upd split: option.splits)

lemma adapter_on_leaveRoom:
  "adapter (on_leaveRoom c s) =
     (if truthy_field (currentRoom (data s c)) \<and> truthy_field (userName (data s c))
      then (adapter s)(the (currentRoom (data s c)) :=
                         removeAll c (adapter s (the (currentRoom (data s c)))))
      else adapter s)"
  by (auto simp: on_leaveRoom_def Let_def socket_leave_def)

lemma socks_transport_close:
  "socks (transport_close c s) =
     (case socks s c of None \<Rightarrow> socks s | Some d \<Rightarrow> (socks s)(c \<mapsto> d\<lparr>connected := False\<rparr>))"
  by (auto simp: transport_close_def socks_upd split: option.splits)

lemma transport_close_frame [simp]:
  "adapter (transport_close c s) = (\<lambda>r. removeAll c (adapter s r))"
  "timers (transport_close c s) = timers s" "nextTimer (transport_close c s) = nextTimer s"
  "now (transport_close c s) = now s" "out (transport_close c s) = out s"
  by (simp_all add: transport_close_def)

lemma on_disconnect_same:
  "same_membership
     (if truthy_field (currentRoom (data s c)) \<and> truthy_field (userName (data s c))
      then safeLeaveRoom (currentRoom (data s c)) (userName (data s c)) s else s)
     (on_disconnect c s)"
  by (auto simp: on_disconnect_def Let_def same_membership_def socks_upd membership_def
           split: option.splits)

lemma socks_on_connection:
  "socks (on_connection c s) =
     (socks s)(c \<mapsto> \<lparr>currentRoom = None, userName = None, codeDebounceTimer = None,
                      pendingCode = None, connected = True\<rparr>)"
  by (simp add: on_connection_def)

lemma adapter_on_connection:
  "adapter (on_connection c s) =
     (adapter s)(c := (if c \<in> set (adapter s c) then adapter s c else adapter s c @ [c]))"
  by (simp add: on_connection_def socket_join_def)

lemma join_ok_cases:
  obtains (bad) "on_join c p s = emit_socket c ''error''
                    (JObj [(''message'', JStr ''Invalid or missing roomId in join'')]) s
                 \<or> on_join c p s = emit_socket c ''error''
                    (JObj [(''message'', JStr ''Invalid or missing userName in join'')]) s"
        | (ok) r n where "jsprop p ''roomId'' = JStr r" "trim r \<noteq> []"
                         "jsprop p ''userName'' = JStr n" "trim n \<noteq> []"
proof (cases "\<not> truthy p \<or> \<not> is_string (jsprop p ''roomId'')
         \<or> trim (str_of (jsprop p ''roomId'')) = []")
  case True
  then have "on_join c p s = emit_socket c ''error''
                    (JObj [(''message'', JStr ''Invalid or missing roomId in join'')]) s"
    by (simp add: on_join_def)
  then show ?thesis using bad by blast
next
  case a: False
  show ?thesis
  proof (cases "\<not> is_string (jsprop p ''userName'')
         \<or> trim (str_of (jsprop p ''userName'')) = []")
    case True
    then have "on_join c p s = emit_socket c ''error''
                    (JObj [(''message'', JStr ''Invalid or missing userName in join'')]) s"
      using a by (simp add: on_join_def)
    then show ?thesis using bad by blast
  next
    case False
    obtain r where r: "jsprop p ''roomId'' = JStr r"
      using a by (cases "jsprop p ''roomId''") auto
    obtain n where n: "jsprop p ''userName'' = JStr n"
      using False by (cases "jsprop p ''userName''") auto
    show ?thesis using ok [OF r _ n] a False r n by simp
  qed
qed

lemma well_named_step:
  assumes a: "well_named s" "step e s = Inr s'"
  shows "well_named s'"
proof (cases e)
  case (Connect c)
  with a show ?thesis
    by (auto simp: well_named_def socks_on_connection split: if_splits)
next
  case (Join c p)
  show ?thesis
  proof (cases rule: join_ok_cases [of c p s])
    case bad
    then have "same_membership s (on_join c p s)"
      by (auto simp: same_membership_frame)
    then have "well_named (on_join c p s)" using a(1) by (rule well_named_same)
    with a Join show ?thesis by (auto split: if_splits)
  next
    case (ok r n)
    have "r \<noteq> []" "n \<noteq> []" using ok by (auto dest: trim_nonempty)
    then have "well_named (on_join c p s)"
      using a(1) by (auto simp: well_named_def socks_on_join [OF ok] split: option.splits if_splits)
    with a Join show ?thesis by (auto split: if_splits)
  qed
next
  case (CodeChange c p)
  with a(2) have "s' = s \<or> on_codeChange c p s = Inr s'" by (auto split: if_splits)
  then have "same_membership s s'"
    by (auto simp: same_membership_refl dest: same_membership_on_codeChange)
  then show ?thesis using a(1) by (rule well_named_same)
next
  case (LeaveRoom c)
  have "well_named (on_leaveRoom c s)"
    using a(1) by (auto simp: well_named_def socks_on_leaveRoom split: option.splits if_splits)
  with a LeaveRoom show ?thesis by (auto split: if_splits)
next
  case (Typing c p)
  with a(2) have "s' = s \<or> on_typing c p s = Inr s'" by (auto split: if_splits)
  then have "same_membership s s'"
    by (auto simp: same_membership_refl dest: same_membership_on_typing)
  then show ?thesis using a(1) by (rule well_named_same)
next
  case (LanguageChange c p)
  with a(2) have "s' = s \<or> on_languageChange c p s = Inr s'" by (auto split: if_splits)
  then have "same_membership s s'"
    by (auto simp: same_membership_refl dest: same_membership_on_languageChange)
  then show ?thesis using a(1) by (rule well_named_same)
next
  case (Disconnect c)
  let ?t = "transport_close c s"
  have t: "well_named ?t"
    using a(1) by (auto simp: well_named_def socks_transport_close split: option.splits if_splits)
  have "well_named (if truthy_field (currentRoom (data ?t c)) \<and> truthy_field (userName (data ?t c))
      then safeLeaveRoom (currentRoom (data ?t c)) (userName (data ?t c)) ?t else ?t)"
    using t by (simp add: well_named_def)
  then have "well_named (on_disconnect c ?t)"
    by (rule well_named_same [OF on_disconnect_same])
  with a Disconnect show ?thesis by (auto split: if_splits)
next
  case (Elapse d)
  with a(2) have "s' = elapse d s" by simp
  then show ?thesis using well_named_same [OF same_membership_elapse a(1)] by simp
qed

lemma reachable_well_named: "reachable s \<Longrightarrow> well_named s"
proof (induction rule: reachable.induct)
  case start
  show ?case by (simp add: well_named_def init_def)
next
  case (after s e s')
  from after(3) after(2) show ?case by (rule well_named_step)
qed

lemma subscribed_safeLeaveRoom: "subscribed s \<Longrightarrow> subscribed (safeLeaveRoom ro un s)"
  by (simp add: subscribed_def)

lemma subscribed_step:
  assumes a: "subscribed s" "step e s = Inr s'"
  shows "subscribed s'"
proof (cases e)
  case (Connect c)
  with a show ?thesis
    by (auto simp: subscribed_def socks_on_connection adapter_on_connection split: if_splits)
next
  case (Join c p)
  show ?thesis
  proof (cases rule: join_ok_cases [of c p s])
    case bad
    then have "same_membership s (on_join c p s)"
      by (auto simp: same_membership_frame)
    then have "subscribed (on_join c p s)" using a(1) by (rule subscribed_same)
    with a Join show ?thesis by (auto split: if_splits)
  next
    case (ok r n)
    have "subscribed (on_join c p s)"
      using a(1)
      by (auto simp: subscribed_def socks_on_join [OF ok] adapter_on_join [OF ok]
                     socket_join_def socket_leave_def
               split: option.splits if_splits)
    with a Join show ?thesis by (auto split: if_splits)
  qed
next
  case (CodeChange c p)
  with a(2) have "s' = s \<or> on_codeChange c p s = Inr s'" by (auto split: if_splits)
  then have "same_membership s s'"
    by (auto simp: same_membership_refl dest: same_membership_on_codeChange)
  then show ?thesis using a(1) by (rule subscribed_same)
next
  case (LeaveRoom c)
  have "subscribed (on_leaveRoom c s)"
    using a(1)
    by (auto simp: subscribed_def socks_on_leaveRoom adapter_on_leaveRoom
             split: option.splits if_splits)
  with a LeaveRoom show ?thesis by (auto split: if_splits)
next
  case (Typing c p)
  with a(2) have "s' = s \<or> on_typing c p s = Inr s'" by (auto split: if_splits)
  then have "same_membership s s'"
    by (auto simp: same_membership_refl dest: same_membership_on_typing)
  then show ?thesis using a(1) by (rule subscribed_same)
next
  case (LanguageChange c p)
  with a(2) have "s' = s \<or> on_languageChange c p s = Inr s'" by (auto split: if_splits)
  then have "same_membership s s'"
    by (auto simp: same_membership_refl dest: same_membership_on_languageChange)
  then show ?thesis using a(1) by (rule subscribed_same)
next
  case (Disconnect c)
  let ?t = "transport_close c s"
  have t: "subscribed ?t"
    using a(1) by (auto simp: subscribed_def socks_transport_close split: option.splits if_splits)
  have "subscribed (if truthy_field (currentRoom (data ?t c)) \<and> truthy_field (userName (data ?t c))
      then safeLeaveRoom (currentRoom (data ?t c)) (userName (data ?t c)) ?t else ?t)"
    using t by (simp add: subscribed_safeLeaveRoom)
  then have "subscribed (on_disconnect c ?t)"
    by (rule subscribed_same [OF on_disconnect_same])
  with a Disconnect show ?thesis by (auto split: if_splits)
next
  case (Elapse d)
  with a(2) have "s' = elapse d s" by simp
  then show ?thesis using subscribed_same [OF same_membership_elapse a(1)] by simp
qed

lemma reachable_subscribed: "reachable s \<Longrightarrow> subscribed s"
proof (induction rule: reachable.induct)
  case start
  show ?case by (simp add: subscribed_def init_def)
next
  case (after s e s')
  from after(3) after(2) show ?case by (rule subscribed_step)
qed

lemma truthy_fields_agree:
  assumes "paired s" "well_named s" "socks s c = Some d"
  shows "truthy_field (userName d) = truthy_field (currentRoom d)"
    and "truthy_field (currentRoom d) \<Longrightarrow> \<exists>r n. currentRoom d = Some r \<and> userName d = Some n \<and> r \<noteq> []"
    and "\<not> truthy_field (currentRoom d) \<Longrightarrow> currentRoom d = None"
proof -
  have p: "(currentRoom d = None) = (userName d = None)"
    using assms(1,3) by (simp add: paired_def)
  have w: "currentRoom d \<noteq> Some []" "userName d \<noteq> Some []"
    using assms(2,3) by (auto simp: well_named_def)
  show "truthy_field (userName d) = truthy_field (currentRoom d)"
    using p w by (cases "currentRoom d"; cases "userName d") auto
  show "truthy_field (currentRoom d) \<Longrightarrow> \<exists>r n. currentRoom d = Some r \<and> userName d = Some n \<and> r \<noteq> []"
    using p w by (cases "currentRoom d"; cases "userName d") auto
  show "\<not> truthy_field (currentRoom d) \<Longrightarrow> currentRoom d = None"
    using w by (cases "currentRoom d") auto
qed

lemma left_name_gone:
  "rooms (safeLeaveRoom (Some r0) (Some n0) s) r0 = Some ns \<Longrightarrow> r0 \<noteq> [] \<Longrightarrow> n0 \<notin> set ns"
  by (auto simp: rooms_safeLeaveRoom set_delete_def split: if_splits)

text \<open>After a socket has left, what remains in the directory is backed by other sockets.\<close>

lemma backed_by_others:
  assumes "paired s" "well_named s" "backed s" "socks s c = Some d"
      and "rooms (if truthy_field (currentRoom d)
                  then safeLeaveRoom (currentRoom d) (userName d) s else s) r = Some ns"
      and "n \<in> set ns"
  shows "\<exists>c' d'. c' \<noteq> c \<and> socks s c' = Some d' \<and> connected d' \<and> currentRoom d' = Some r
            \<and> userName d' = Some n"
proof (cases "truthy_field (currentRoom d)")
  case False
  then have none: "currentRoom d = None"
    using truthy_fields_agree(3) [OF assms(1,2,4)] by simp
  from False assms(5) have "rooms s r = Some ns" by simp
  with assms(3,6) obtain c' d' where
    b: "socks s c' = Some d'" "connected d'" "currentRoom d' = Some r" "userName d' = Some n"
    unfolding backed_def by blast
  have "c' \<noteq> c" using b(1,3) assms(4) none by auto
  with b show ?thesis by blast
next
  case True
  then obtain r0 n0 where rn: "currentRoom d = Some r0" "userName d = Some n0" "r0 \<noteq> []"
    using truthy_fields_agree(2) [OF assms(1,2,4)] by blast
  have in_s: "rooms s r = Some ns \<and> n \<in> set ns
              \<or> (r = r0 \<and> n \<noteq> n0 \<and> (\<exists>ms. rooms s r = Some ms \<and> n \<in> set ms))"
    using assms(5,6) True rn
    by (auto simp: rooms_safeLeaveRoom set_delete_def split: if_splits)
  then obtain ms where ms: "rooms s r = Some ms" "n \<in> set ms" by blast
  with assms(3) obtain c' d' where
    b: "socks s c' = Some d'" "connected d'" "currentRoom d' = Some r" "userName d' = Some n"
    unfolding backed_def by blast
  have "c' \<noteq> c"
  proof
    assume "c' = c"
    with b assms(4) rn have e: "r = r0" "n = n0" by auto
    with assms(5,6) True rn left_name_gone [of r0 n0 s ns] show False
      by simp
  qed
  with b show ?thesis by blast
qed

lemma backed_step:
  assumes inv: "paired s" "well_named s" "backed s" and st: "step e s = Inr s'"
  shows "backed s'"
proof (cases e)
  case (Connect c)
  show ?thesis
  proof (cases "socks s c")
    case (Some d)
    with st Connect show ?thesis using inv(3) by simp
  next
    case None
    with st Connect have s': "s' = on_connection c s" by simp
    show ?thesis
      unfolding backed_def
    proof (intro allI impI)
      fix r ns n
      assume "rooms s' r = Some ns \<and> n \<in> set ns"
      then have "rooms s r = Some ns \<and> n \<in> set ns" by (simp add: s')
      with inv(3) obtain c' d' where
        b: "socks s c' = Some d'" "connected d'" "currentRoom d' = Some r" "userName d' = Some n"
        unfolding backed_def by blast
      have "c' \<noteq> c" using b(1) None by auto
      then have "socks s' c' = Some d'" using b(1) by (simp add: s' socks_on_connection)
      with b show "\<exists>c d. socks s' c = Some d \<and> connected d \<and> currentRoom d = Some r
                          \<and> userName d = Some n" by blast
    qed
  qed
next
  case (Join c p)
  show ?thesis
  proof (cases "live s c")
    case False
    with st Join show ?thesis using inv(3) by simp
  next
    case True
    then obtain d where d: "socks s c = Some d" "connected d"
      using live_socks by blast
    from True st Join have s': "s' = on_join c p s" by simp
    show ?thesis
    proof (cases rule: join_ok_cases [of c p s])
      case bad
      then have "same_membership s (on_join c p s)"
        by (auto simp: same_membership_frame)
      then show ?thesis using inv(3) s' backed_same by blast
    next
      case (ok r n)
      let ?L = "if truthy_field (currentRoom d)
                then safeLeaveRoom (currentRoom d) (userName d) s else s"
      have dd: "data s c = d" using d by (simp add: data_def)
      have rooms': "rooms s' = (rooms ?L)(r \<mapsto> set_add n (case rooms ?L r of None \<Rightarrow> [] | Some ns \<Rightarrow> ns))"
        using ok jsprop_string_truthy [OF ok(1)]
        by (simp add: s' rooms_on_join dd Let_def)
      have socks': "socks s' = (socks s)(c \<mapsto> d\<lparr>currentRoom := Some r, userName := Some n\<rparr>)"
        by (simp add: s' socks_on_join [OF ok] d)
      show ?thesis
        unfolding backed_def
      proof (intro allI impI)
        fix r' ns' n'
        assume h: "rooms s' r' = Some ns' \<and> n' \<in> set ns'"
        show "\<exists>c d. socks s' c = Some d \<and> connected d \<and> currentRoom d = Some r'
                          \<and> userName d = Some n'"
        proof (cases "r' = r \<and> n' = n")
          case True
          then show ?thesis using d(2) by (auto simp: socks')
        next
          case False
          then have "\<exists>ms. rooms ?L r' = Some ms \<and> n' \<in> set ms"
            using h by (auto simp: rooms' set_add_def split: option.splits if_splits)
          then obtain ms where ms: "rooms ?L r' = Some ms" "n' \<in> set ms" by blast
          from backed_by_others [OF inv d(1) ms] obtain c' d' where
            b: "c' \<noteq> c" "socks s c' = Some d'" "connected d'" "currentRoom d' = Some r'"
               "userName d' = Some n'" by blast
          then have "socks s' c' = Some d'" by (simp add: socks')
          with b show ?thesis by blast
        qed
      qed
    qed
  qed
next
  case (CodeChange c p)
  with st have "s' = s \<or> on_codeChange c p s = Inr s'" by (auto split: if_splits)
  then have "same_membership s s'"
    by (auto simp: same_membership_refl dest: same_membership_on_codeChange)
  then show ?thesis using inv(3) by (rule backed_same)
next
  case (LeaveRoom c)
  show ?thesis
  proof (cases "live s c")
    case False
    with st LeaveRoom show ?thesis using inv(3) by simp
  next
    case True
    then obtain d where d: "socks s c = Some d" "connected d"
      using live_socks by blast
    from True st LeaveRoom have s': "s' = on_leaveRoom c s" by simp
    let ?L = "if truthy_field (currentRoom d)
              then safeLeaveRoom (currentRoom d) (userName d) s else s"
    have dd: "data s c = d" using d by (simp add: data_def)
    have rooms': "rooms s' = rooms ?L"
      using truthy_fields_agree(1) [OF inv(1,2) d(1)] by (simp add: s' rooms_on_leaveRoom dd)
    have socks': "socks s' = (socks s)(c \<mapsto> d\<lparr>currentRoom := None, userName := None\<rparr>)"
      by (simp add: s' socks_on_leaveRoom d)
    show ?thesis
      unfolding backed_def
    proof (intro allI impI)
      fix r' ns' n'
      assume h: "rooms s' r' = Some ns' \<and> n' \<in> set ns'"
      then have ms: "rooms ?L r' = Some ns'" "n' \<in> set ns'" by (simp_all add: rooms')
      from backed_by_others [OF inv d(1) ms] obtain c' d' where
        b: "c' \<noteq> c" "socks s c' = Some d'" "connected d'" "currentRoom d' = Some r'"
           "userName d' = Some n'" by blast
      then have "socks s' c' = Some d'" by (simp add: socks')
      with b show "\<exists>c d. socks s' c = Some d \<and> connected d \<and> currentRoom d = Some r'
                          \<and> userName d = Some n'" by blast
    qed
  qed
next
  case (Typing c p)
  with st have "s' = s \<or> on_typing c p s = Inr s'" by (auto split: if_splits)
  then have "same_membership s s'"
    by (auto simp: same_membership_refl dest: same_membership_on_typing)
  then show ?thesis using inv(3) by (rule backed_same)
next
  case (LanguageChange c p)
  with st have "s' = s \<or> on_languageChange c p s = Inr s'" by (auto split: if_splits)
  then have "same_membership s s'"
    by (auto simp: same_membership_refl dest: same_membership_on_languageChange)
  then show ?thesis using inv(3) by (rule backed_same)
next
  case (Disconnect c)
  show ?thesis
  proof (cases "live s c")
    case False
    with st Disconnect show ?thesis using inv(3) by simp
  next
    case True
    then obtain d where d: "socks s c = Some d" "connected d"
      using live_socks by blast
    let ?t = "transport_close c s"
    from True st Disconnect have s': "s' = on_disconnect c ?t" by simp
    let ?L = "if truthy_field (currentRoom d)
              then safeLeaveRoom (currentRoom d) (userName d) s else s"
    let ?M = "if truthy_field (currentRoom (data ?t c)) \<and> truthy_field (userName (data ?t c))
              then safeLeaveRoom (currentRoom (data ?t c)) (userName (data ?t c)) ?t else ?t"
    have dt: "data ?t c = d\<lparr>connected := False\<rparr>"
      using d by (simp add: data_def socks_transport_close)
    have roomsM: "rooms ?M = rooms ?L"
      using truthy_fields_agree(1) [OF inv(1,2) d(1)]
      by (simp add: dt rooms_safeLeaveRoom split: option.splits)
    have socksM: "socks ?M = (socks s)(c \<mapsto> d\<lparr>connected := False\<rparr>)"
      using d by (simp add: socks_transport_close)
    have "backed ?M"
      unfolding backed_def
    proof (intro allI impI)
      fix r' ns' n'
      assume h: "rooms ?M r' = Some ns' \<and> n' \<in> set ns'"
      then have ms: "rooms ?L r' = Some ns'" "n' \<in> set ns'" using roomsM by simp_all
      from backed_by_others [OF inv d(1) ms] obtain c' d' where
        b: "c' \<noteq> c" "socks s c' = Some d'" "connected d'" "currentRoom d' = Some r'"
           "userName d' = Some n'" by blast
      then have "socks ?M c' = Some d'" using socksM by simp
      with b show "\<exists>c d. socks ?M c = Some d \<and> connected d \<and> currentRoom d = Some r'
                          \<and> userName d = Some n'" by blast
    qed
    then show ?thesis
      unfolding s' by (rule backed_same [OF on_disconnect_same])
  qed
next
  case (Elapse d)
  with st have "s' = elapse d s" by simp
  then show ?thesis using backed_same [OF same_membership_elapse inv(3)] by simp
qed

lemma reachable_backed: "reachable s \<Longrightarrow> backed s"
proof (induction rule: reachable.induct)
  case start
  show ?case by (simp add: backed_def init_def)
next
  case (after s e s')
  show ?case
    using reachable_paired [OF after(1)] reachable_well_named [OF after(1)] after(3) after(2)
    by (rule backed_step)
qed

lemma out_on_leaveRoom:
  "out (on_leaveRoom c s) =
     out (if truthy_field (currentRoom (data s c)) \<and> truthy_field (userName (data s c))
          then safeLeaveRoom (currentRoom (data s c)) (userName (data s c)) s else s)"
  by (simp add: on_leaveRoom_def Let_def)

lemma out_on_disconnect:
  "out (on_disconnect c s) =
     out (if truthy_field (currentRoom (data s c)) \<and> truthy_field (userName (data s c))
          then safeLeaveRoom (currentRoom (data s c)) (userName (data s c)) s else s)"
  by (auto simp: on_disconnect_def Let_def split: option.splits)

lemma pairedD: "paired s \<Longrightarrow> socks s c = Some d \<Longrightarrow> (currentRoom d = None) = (userName d = None)"
  unfolding paired_def by blast

lemma well_namedD:
  "well_named s \<Longrightarrow> socks s c = Some d \<Longrightarrow> currentRoom d \<noteq> Some [] \<and> userName d \<noteq> Some []"
  unfolding well_named_def by blast

lemma subscribedD:
  "subscribed s \<Longrightarrow> socks s c = Some d \<Longrightarrow> connected d \<Longrightarrow> currentRoom d = Some r
     \<Longrightarrow> c \<in> set (adapter s r)"
  unfolding subscribed_def by blast

lemma backedD:
  "backed s \<Longrightarrow> rooms s r = Some ns \<Longrightarrow> n \<in> set ns
     \<Longrightarrow> \<exists>c d. socks s c = Some d \<and> connected d \<and> currentRoom d = Some r \<and> userName d = Some n"
  unfolding backed_def by blast

lemma in_room_facts:
  assumes "reachable s" "live s c" "currentRoom (data s c) = Some r"
  shows "\<exists>d n. socks s c = Some d \<and> connected d \<and> currentRoom d = Some r \<and> userName d = Some n
               \<and> r \<noteq> [] \<and> n \<noteq> [] \<and> c \<in> set (adapter s r)"
proof -
  obtain d where d: "socks s c = Some d" "connected d" using assms(2) live_socks by blast
  have cr: "currentRoom d = Some r" using assms(3) d by (simp add: data_def)
  have "userName d \<noteq> None"
    using pairedD [OF reachable_paired [OF assms(1)] d(1)] cr by simp
  then obtain n where n: "userName d = Some n" by blast
  have "r \<noteq> []" "n \<noteq> []"
    using well_namedD [OF reachable_well_named [OF assms(1)] d(1)] cr n by auto
  moreover have "c \<in> set (adapter s r)"
    using subscribedD [OF reachable_subscribed [OF assms(1)] d cr] .
  ultimately show ?thesis using d cr n by blast
qed


section \<open>Debounce timers\<close>

lemma timers_ok_distinct: "timers_ok s \<Longrightarrow> distinct (map tid (timers s))"
  by (simp add: timers_ok_def)

lemma timers_ok_owner:
  "timers_ok s \<Longrightarrow> tm \<in> set (timers s)
     \<Longrightarrow> \<exists>d. socks s (owner tm) = Some d \<and> codeDebounceTimer d = Some (tid tm)"
  unfolding timers_ok_def by blast

lemma timers_ok_fresh:
  "timers_ok s \<Longrightarrow> socks s c = Some d \<Longrightarrow> codeDebounceTimer d = Some h \<Longrightarrow> h < nextTimer s"
  unfolding timers_ok_def by blast

lemma timers_ok_handle_inj:
  "timers_ok s \<Longrightarrow> socks s c = Some d \<Longrightarrow> codeDebounceTimer d = Some h
     \<Longrightarrow> socks s c' = Some d' \<Longrightarrow> codeDebounceTimer d' = Some h \<Longrightarrow> c = c'"
  unfolding timers_ok_def by blast

lemma same_timers_handle:
  assumes "same_timers s s'"
  shows "(\<exists>d'. socks s' c = Some d' \<and> codeDebounceTimer d' = Some h)
         = (\<exists>d. socks s c = Some d \<and> codeDebounceTimer d = Some h)"
proof -
  have "map_option codeDebounceTimer (socks s' c) = map_option codeDebounceTimer (socks s c)"
    using assms by (simp add: same_timers_def)
  then show ?thesis
    by (cases "socks s c"; cases "socks s' c") auto
qed

lemma timers_ok_same:
  assumes st: "same_timers s s'" and ok: "timers_ok s"
  shows "timers_ok s'"
proof -
  have t: "timers s' = timers s" "nextTimer s' = nextTimer s"
    using st by (simp_all add: same_timers_def)
  note h = same_timers_handle [OF st]
  have 1: "distinct (map tid (timers s'))" using ok t by (simp add: timers_ok_def)
  have 2: "\<forall>tm \<in> set (timers s'). \<exists>d. socks s' (owner tm) = Some d
                                     \<and> codeDebounceTimer d = Some (tid tm)"
  proof
    fix tm assume "tm \<in> set (timers s')"
    then have "\<exists>d. socks s (owner tm) = Some d \<and> codeDebounceTimer d = Some (tid tm)"
      using timers_ok_owner [OF ok, of tm] t by simp
    then show "\<exists>d. socks s' (owner tm) = Some d \<and> codeDebounceTimer d = Some (tid tm)"
      using h by simp
  qed
  have 3: "\<forall>c d h. socks s' c = Some d \<and> codeDebounceTimer d = Some h \<longrightarrow> h < nextTimer s'"
  proof (intro allI impI)
    fix c d' k assume "socks s' c = Some d' \<and> codeDebounceTimer d' = Some k"
    then have "\<exists>d. socks s c = Some d \<and> codeDebounceTimer d = Some k"
      using h [of c k] by blast
    then show "k < nextTimer s'" using timers_ok_fresh [OF ok] t by auto
  qed
  have 4: "\<forall>c c' d d' h. socks s' c = Some d \<and> codeDebounceTimer d = Some h
                        \<and> socks s' c' = Some d' \<and> codeDebounceTimer d' = Some h \<longrightarrow> c = c'"
  proof (intro allI impI)
    fix c c' d d' k
    assume a: "socks s' c = Some d \<and> codeDebounceTimer d = Some k
                        \<and> socks s' c' = Some d' \<and> codeDebounceTimer d' = Some k"
    then have "\<exists>d. socks s c = Some d \<and> codeDebounceTimer d = Some k"
      using h [of c k] by blast
    moreover from a have "\<exists>d. socks s c' = Some d \<and> codeDebounceTimer d = Some k"
      using h [of c' k] by blast
    ultimately show "c = c'" using timers_ok_handle_inj [OF ok] by blast
  qed
  show ?thesis unfolding timers_ok_def using 1 2 3 4 by blast
qed

lemma same_timers_refl: "same_timers s s"
  by (simp add: same_timers_def)

lemma same_timers_trans: "same_timers s t \<Longrightarrow> same_timers t u \<Longrightarrow> same_timers s u"
  by (simp add: same_timers_def)

lemma same_timers_on_join: "same_timers s (on_join c p s)"
proof (cases rule: join_ok_cases [of c p s])
  case bad
  then show ?thesis by (auto simp: same_timers_def)
next
  case (ok r n)
  show ?thesis
    by (auto simp: same_timers_def socks_on_join [OF ok] split: option.splits)
qed

lemma on_leaveRoom_frame [simp]:
  "timers (on_leaveRoom c s) = timers s" "nextTimer (on_leaveRoom c s) = nextTimer s"
  "now (on_leaveRoom c s) = now s"
  by (simp_all add: on_leaveRoom_def Let_def)

lemma same_timers_on_leaveRoom: "same_timers s (on_leaveRoom c s)"
  by (auto simp: same_timers_def socks_on_leaveRoom split: option.splits)

lemma same_timers_on_typing: "on_typing c p s = Inr s' \<Longrightarrow> same_timers s s'"
  by (auto simp: on_typing_def same_timers_def split: sum.splits)

lemma same_timers_on_languageChange: "on_languageChange c p s = Inr s' \<Longrightarrow> same_timers s s'"
  by (auto simp: on_languageChange_def same_timers_def split: sum.splits if_splits)

lemma same_timers_transport_close: "same_timers s (transport_close c s)"
  by (auto simp: same_timers_def socks_transport_close split: option.splits)


lemma destructure_object: "jsprop p k = JStr x \<Longrightarrow> destructure p = Inr p"
  by (cases p) auto

lemma on_codeChange_accept:
  assumes "is_edit r p" "r \<noteq> []" "socks s c = Some d" "currentRoom d = Some r"
  shows "on_codeChange c p s =
           Inr (s\<lparr>socks := (socks s)(c \<mapsto> d\<lparr>pendingCode := Some (str_of (jsprop p ''code'')),
                                            codeDebounceTimer := Some (nextTimer s)\<rparr>),
                  timers := filter (\<lambda>t. Some (tid t) \<noteq> codeDebounceTimer d) (timers s)
                            @ [\<lparr>tid = nextTimer s, owner = c, troom = r, due = now s + 100\<rparr>],
                  nextTimer := Suc (nextTimer s)\<rparr>)"
proof -
  have dp: "destructure p = Inr p"
    using assms(1) by (auto simp: is_edit_def intro: destructure_object)
  show ?thesis
  proof (cases "codeDebounceTimer d")
    case None
    then show ?thesis
      using assms dp
      by (simp add: on_codeChange_def is_edit_def Let_def upd_def data_def setTimeout_def)
  next
    case (Some h)
    then show ?thesis
      using assms dp
      by (simp add: on_codeChange_def is_edit_def Let_def upd_def data_def setTimeout_def
                    clearTimeout_def)
  qed
qed

lemma on_codeChange_cases:
  assumes "on_codeChange c p s = Inr s'" "socks s c = Some d"
  shows "s' = s \<or> (\<exists>r. is_edit r p \<and> r \<noteq> [] \<and> currentRoom d = Some r)"
proof (cases p)
  case JUndefined
  with assms show ?thesis by (simp add: on_codeChange_def)
next
  case JNull
  with assms show ?thesis by (simp add: on_codeChange_def)
next
  case (JObj kvs)
  show ?thesis
  proof (cases "is_string (jsprop p ''roomId'') \<and> truthy (jsprop p ''roomId'')
                \<and> is_string (jsprop p ''code'')
                \<and> currentRoom (data s c) = Some (str_of (jsprop p ''roomId''))")
    case False
    with assms JObj show ?thesis by (auto simp: on_codeChange_def)
  next
    case True
    then obtain r where r: "jsprop p ''roomId'' = JStr r"
      by (cases "jsprop p ''roomId''") auto
    with True assms(2) have "is_edit r p \<and> r \<noteq> [] \<and> currentRoom d = Some r"
      by (auto simp: is_edit_def data_def)
    then show ?thesis by blast
  qed
qed (use assms in \<open>simp_all add: on_codeChange_def\<close>)


lemma timers_ok_shrink:
  assumes ok: "timers_ok s"
      and d: "distinct (map tid (timers s'))"
      and sub: "set (timers s') \<subseteq> set (timers s)"
      and nt: "nextTimer s \<le> nextTimer s'"
      and hs: "\<And>c d' h. socks s' c = Some d' \<Longrightarrow> codeDebounceTimer d' = Some h
                 \<Longrightarrow> \<exists>d. socks s c = Some d \<and> codeDebounceTimer d = Some h"
      and keep: "\<And>tm. tm \<in> set (timers s')
                 \<Longrightarrow> \<exists>d'. socks s' (owner tm) = Some d' \<and> codeDebounceTimer d' = Some (tid tm)"
  shows "timers_ok s'"
proof -
  have 3: "\<forall>c d h. socks s' c = Some d \<and> codeDebounceTimer d = Some h \<longrightarrow> h < nextTimer s'"
  proof (intro allI impI)
    fix c d' h assume a: "socks s' c = Some d' \<and> codeDebounceTimer d' = Some h"
    then obtain d0 where "socks s c = Some d0" "codeDebounceTimer d0 = Some h"
      using hs [of c d' h] by blast
    then have "h < nextTimer s" using timers_ok_fresh [OF ok] by blast
    with nt show "h < nextTimer s'" by simp
  qed
  have 4: "\<forall>c c' d d' h. socks s' c = Some d \<and> codeDebounceTimer d = Some h
                        \<and> socks s' c' = Some d' \<and> codeDebounceTimer d' = Some h \<longrightarrow> c = c'"
  proof (intro allI impI)
    fix c c' d d' h
    assume a: "socks s' c = Some d \<and> codeDebounceTimer d = Some h
                        \<and> socks s' c' = Some d' \<and> codeDebounceTimer d' = Some h"
    obtain d0 where d0: "socks s c = Some d0" "codeDebounceTimer d0 = Some h"
      using hs [of c d h] a by blast
    obtain d1 where d1: "socks s c' = Some d1" "codeDebounceTimer d1 = Some h"
      using hs [of c' d' h] a by blast
    show "c = c'" using timers_ok_handle_inj [OF ok d0 d1] .
  qed
  show ?thesis
    unfolding timers_ok_def using d keep 3 4 by blast
qed

lemma on_disconnect_timers:
  "timers (on_disconnect c s) =
     (case codeDebounceTimer (data s c) of
        Some h \<Rightarrow> filter (\<lambda>t. tid t \<noteq> h) (timers s) | None \<Rightarrow> timers s)"
  "nextTimer (on_disconnect c s) = nextTimer s" "now (on_disconnect c s) = now s"
  by (auto simp: on_disconnect_def Let_def clearTimeout_def split: option.splits)

lemma socks_on_disconnect:
  "socks (on_disconnect c s) =
     (case socks s c of None \<Rightarrow> socks s
      | Some d \<Rightarrow> (case codeDebounceTimer d of
                     Some h \<Rightarrow> (socks s)(c \<mapsto> d\<lparr>codeDebounceTimer := None, pendingCode := None\<rparr>)
                   | None \<Rightarrow> socks s))"
  by (auto simp: on_disconnect_def Let_def socks_upd data_def split: option.splits)

lemma socks_fold_flush:
  "socks (fold (\<lambda>tm. flush (owner tm) (troom tm)) tms s) c =
     (if c \<in> owner ` set tms
      then map_option (\<lambda>d. d\<lparr>pendingCode := None, codeDebounceTimer := None\<rparr>) (socks s c)
      else socks s c)"
proof (induction tms arbitrary: s)
  case Nil
  show ?case by simp
next
  case (Cons tm tms)
  show ?case
    by (auto simp: Cons.IH socks_flush split: option.splits)
qed

lemma socks_elapse:
  "socks (elapse d s) c =
     (if c \<in> owner ` {tm \<in> set (timers s). is_due (now s + d) tm}
      then map_option (\<lambda>d. d\<lparr>pendingCode := None, codeDebounceTimer := None\<rparr>) (socks s c)
      else socks s c)"
  by (simp add: elapse_def socks_fold_flush)

lemma same_tid_same_timer:
  assumes "distinct (map tid tms)" "t1 \<in> set tms" "t2 \<in> set tms" "tid t1 = tid t2"
  shows "t1 = t2"
  using assms by (meson distinct_map inj_onD)

lemma timers_ok_accept:
  assumes ok: "timers_ok s" and d: "socks s c = Some d"
  shows "timers_ok (s\<lparr>socks := (socks s)(c \<mapsto> d\<lparr>pendingCode := Some x,
                                            codeDebounceTimer := Some (nextTimer s)\<rparr>),
                  timers := filter (\<lambda>t. Some (tid t) \<noteq> codeDebounceTimer d) (timers s)
                            @ [\<lparr>tid = nextTimer s, owner = c, troom = r, due = now s + 100\<rparr>],
                  nextTimer := Suc (nextTimer s)\<rparr>)"
    (is "timers_ok ?s'")
proof -
  let ?keep = "filter (\<lambda>t. Some (tid t) \<noteq> codeDebounceTimer d) (timers s)"
  have old_lt: "\<And>tm. tm \<in> set (timers s) \<Longrightarrow> tid tm < nextTimer s"
  proof -
    fix tm assume "tm \<in> set (timers s)"
    then obtain d0 where "socks s (owner tm) = Some d0" "codeDebounceTimer d0 = Some (tid tm)"
      using timers_ok_owner [OF ok] by blast
    then show "tid tm < nextTimer s" using timers_ok_fresh [OF ok] by blast
  qed
  have not_c: "\<And>tm. tm \<in> set ?keep \<Longrightarrow> owner tm \<noteq> c"
  proof
    fix tm assume a: "tm \<in> set ?keep" "owner tm = c"
    then obtain d0 where "socks s (owner tm) = Some d0" "codeDebounceTimer d0 = Some (tid tm)"
      using timers_ok_owner [OF ok, of tm] by auto
    with a d show False by auto
  qed
  have fresh: "nextTimer s \<notin> tid ` set (timers s)"
  proof
    assume "nextTimer s \<in> tid ` set (timers s)"
    then obtain tm where "tm \<in> set (timers s)" "tid tm = nextTimer s" by auto
    with old_lt [of tm] show False by simp
  qed
  have 1: "distinct (map tid (timers ?s'))"
    using timers_ok_distinct [OF ok] fresh by (auto simp: distinct_map_filter)
  have 2: "\<forall>tm \<in> set (timers ?s'). \<exists>d. socks ?s' (owner tm) = Some d
                                     \<and> codeDebounceTimer d = Some (tid tm)"
  proof
    fix tm assume "tm \<in> set (timers ?s')"
    then consider "tm = \<lparr>tid = nextTimer s, owner = c, troom = r, due = now s + 100\<rparr>"
      | "tm \<in> set ?keep" by auto
    then show "\<exists>d. socks ?s' (owner tm) = Some d \<and> codeDebounceTimer d = Some (tid tm)"
    proof cases
      case 1
      then show ?thesis by simp
    next
      case 2
      then have "owner tm \<noteq> c" by (rule not_c)
      moreover have "\<exists>d. socks s (owner tm) = Some d \<and> codeDebounceTimer d = Some (tid tm)"
        using timers_ok_owner [OF ok, of tm] 2 by auto
      ultimately show ?thesis by simp
    qed
  qed
  have 3: "\<forall>c' d' h. socks ?s' c' = Some d' \<and> codeDebounceTimer d' = Some h
             \<longrightarrow> h < nextTimer ?s'"
  proof (intro allI impI)
    fix c' d' h assume a: "socks ?s' c' = Some d' \<and> codeDebounceTimer d' = Some h"
    show "h < nextTimer ?s'"
    proof (cases "c' = c")
      case True
      with a show ?thesis by auto
    next
      case False
      with a have "socks s c' = Some d'" "codeDebounceTimer d' = Some h" by auto
      then have "h < nextTimer s" using timers_ok_fresh [OF ok] by blast
      then show ?thesis by simp
    qed
  qed
  have 4: "\<forall>c1 c2 d1 d2 h. socks ?s' c1 = Some d1 \<and> codeDebounceTimer d1 = Some h
                        \<and> socks ?s' c2 = Some d2 \<and> codeDebounceTimer d2 = Some h \<longrightarrow> c1 = c2"
  proof (intro allI impI)
    fix c1 c2 d1 d2 h
    assume a: "socks ?s' c1 = Some d1 \<and> codeDebounceTimer d1 = Some h
                        \<and> socks ?s' c2 = Some d2 \<and> codeDebounceTimer d2 = Some h"
    have other: "\<And>c' d'. c' \<noteq> c \<Longrightarrow> socks ?s' c' = Some d' \<Longrightarrow> codeDebounceTimer d' = Some h
                  \<Longrightarrow> h < nextTimer s"
    proof -
      fix c' d' assume "c' \<noteq> c" "socks ?s' c' = Some d'" "codeDebounceTimer d' = Some h"
      then have "socks s c' = Some d'" "codeDebounceTimer d' = Some h" by auto
      then show "h < nextTimer s" using timers_ok_fresh [OF ok] by blast
    qed
    show "c1 = c2"
    proof (cases "c1 = c"; cases "c2 = c")
      assume "c1 = c" "c2 = c" then show ?thesis by simp
    next
      assume c: "c1 = c" "c2 \<noteq> c"
      then have "h = nextTimer s" using a by auto
      moreover have "h < nextTimer s" using other [of c2 d2] c a by blast
      ultimately show ?thesis by simp
    next
      assume c: "c1 \<noteq> c" "c2 = c"
      then have "h = nextTimer s" using a by auto
      moreover have "h < nextTimer s" using other [of c1 d1] c a by blast
      ultimately show ?thesis by simp
    next
      assume c: "c1 \<noteq> c" "c2 \<noteq> c"
      with a have "socks s c1 = Some d1" "codeDebounceTimer d1 = Some h"
        "socks s c2 = Some d2" "codeDebounceTimer d2 = Some h" by auto
      then show ?thesis using timers_ok_handle_inj [OF ok] by blast
    qed
  qed
  show ?thesis
    unfolding timers_ok_def using 1 2 3 4 by blast
qed

lemma on_connection_frame [simp]:
  "timers (on_connection c s) = timers s" "nextTimer (on_connection c s) = nextTimer s"
  "now (on_connection c s) = now s" "out (on_connection c s) = out s"
  by (simp_all add: on_connection_def)

lemma timers_ok_on_connection:
  assumes ok: "timers_ok s" and fresh: "socks s c = None"
  shows "timers_ok (on_connection c s)"
proof (rule timers_ok_shrink [OF ok])
  show "distinct (map tid (timers (on_connection c s)))"
    using timers_ok_distinct [OF ok] by simp
  show "set (timers (on_connection c s)) \<subseteq> set (timers s)" by simp
  show "nextTimer s \<le> nextTimer (on_connection c s)" by simp
next
  fix c' d' h
  assume "socks (on_connection c s) c' = Some d'" "codeDebounceTimer d' = Some h"
  then show "\<exists>d. socks s c' = Some d \<and> codeDebounceTimer d = Some h"
    by (auto simp: socks_on_connection split: if_splits)
next
  fix tm assume "tm \<in> set (timers (on_connection c s))"
  then obtain d0 where d0: "socks s (owner tm) = Some d0" "codeDebounceTimer d0 = Some (tid tm)"
    using timers_ok_owner [OF ok, of tm] by auto
  then have "owner tm \<noteq> c" using fresh by auto
  with d0 show "\<exists>d'. socks (on_connection c s) (owner tm) = Some d'
                     \<and> codeDebounceTimer d' = Some (tid tm)"
    by (simp add: socks_on_connection)
qed

lemma timers_ok_on_disconnect:
  assumes ok: "timers_ok s"
  shows "timers_ok (on_disconnect c s)"
proof (rule timers_ok_shrink [OF ok])
  show "distinct (map tid (timers (on_disconnect c s)))"
    using timers_ok_distinct [OF ok]
    by (auto simp: on_disconnect_timers distinct_map_filter split: option.splits)
  show "set (timers (on_disconnect c s)) \<subseteq> set (timers s)"
    by (auto simp: on_disconnect_timers split: option.splits)
  show "nextTimer s \<le> nextTimer (on_disconnect c s)"
    by (simp add: on_disconnect_timers)
next
  fix c' d' h
  assume "socks (on_disconnect c s) c' = Some d'" "codeDebounceTimer d' = Some h"
  then show "\<exists>d. socks s c' = Some d \<and> codeDebounceTimer d = Some h"
    by (auto simp: socks_on_disconnect split: option.splits if_splits)
next
  fix tm assume tm: "tm \<in> set (timers (on_disconnect c s))"
  then have in_s: "tm \<in> set (timers s)"
    by (auto simp: on_disconnect_timers split: option.splits)
  then obtain d0 where d0: "socks s (owner tm) = Some d0" "codeDebounceTimer d0 = Some (tid tm)"
    using timers_ok_owner [OF ok, of tm] by auto
  show "\<exists>d'. socks (on_disconnect c s) (owner tm) = Some d'
                     \<and> codeDebounceTimer d' = Some (tid tm)"
  proof (cases "owner tm = c")
    case True
    with d0 have "codeDebounceTimer (data s c) = Some (tid tm)" by (simp add: data_def)
    with tm show ?thesis by (simp add: on_disconnect_timers)
  next
    case False
    with d0 show ?thesis
      by (auto simp: socks_on_disconnect split: option.splits)
  qed
qed

lemma timers_ok_elapse:
  assumes ok: "timers_ok s"
  shows "timers_ok (elapse n s)"
proof (rule timers_ok_shrink [OF ok])
  show "distinct (map tid (timers (elapse n s)))"
    using timers_ok_distinct [OF ok] by (simp add: distinct_map_filter)
  show "set (timers (elapse n s)) \<subseteq> set (timers s)" by auto
  show "nextTimer s \<le> nextTimer (elapse n s)" by simp
next
  fix c' d' h
  assume "socks (elapse n s) c' = Some d'" "codeDebounceTimer d' = Some h"
  then show "\<exists>d. socks s c' = Some d \<and> codeDebounceTimer d = Some h"
    by (auto simp: socks_elapse split: if_splits)
next
  fix tm assume tm: "tm \<in> set (timers (elapse n s))"
  then have in_s: "tm \<in> set (timers s)" and late: "\<not> is_due (now s + n) tm" by auto
  obtain d0 where d0: "socks s (owner tm) = Some d0" "codeDebounceTimer d0 = Some (tid tm)"
    using timers_ok_owner [OF ok in_s] by blast
  have "owner tm \<notin> owner ` {t \<in> set (timers s). is_due (now s + n) t}"
  proof
    assume "owner tm \<in> owner ` {t \<in> set (timers s). is_due (now s + n) t}"
    then obtain t2 where t2: "t2 \<in> set (timers s)" "is_due (now s + n) t2" "owner t2 = owner tm"
      by auto
    obtain d2 where "socks s (owner t2) = Some d2" "codeDebounceTimer d2 = Some (tid t2)"
      using timers_ok_owner [OF ok t2(1)] by blast
    with d0 t2(3) have "tid t2 = tid tm" by simp
    then have "t2 = tm"
      using same_tid_same_timer [OF timers_ok_distinct [OF ok] t2(1) in_s] by simp
    with t2(2) late show False by simp
  qed
  with d0 show "\<exists>d'. socks (elapse n s) (owner tm) = Some d'
                     \<and> codeDebounceTimer d' = Some (tid tm)"
    by (simp add: socks_elapse)
qed

lemma timers_ok_step:
  assumes ok: "timers_ok s" and st: "step e s = Inr s'"
  shows "timers_ok s'"
proof (cases e)
  case (Connect c)
  with st ok show ?thesis
    by (auto simp: timers_ok_on_connection split: if_splits)
next
  case (Join c p)
  with st have "s' = s \<or> s' = on_join c p s" by (auto split: if_splits)
  then have "same_timers s s'" by (auto simp: same_timers_refl same_timers_on_join)
  then show ?thesis using ok by (rule timers_ok_same)
next
  case (CodeChange c p)
  show ?thesis
  proof (cases "live s c")
    case False
    with st CodeChange ok show ?thesis by simp
  next
    case True
    then obtain d where d: "socks s c = Some d" using live_socks by blast
    from True st CodeChange have r: "on_codeChange c p s = Inr s'" by simp
    from on_codeChange_cases [OF r d] show ?thesis
    proof
      assume "s' = s" with ok show ?thesis by simp
    next
      assume "\<exists>r. is_edit r p \<and> r \<noteq> [] \<and> currentRoom d = Some r"
      then obtain r where "is_edit r p" "r \<noteq> []" "currentRoom d = Some r" by blast
      from on_codeChange_accept [OF this(1,2) d this(3)] r
      show ?thesis using timers_ok_accept [OF ok d] by simp
    qed
  qed
next
  case (LeaveRoom c)
  with st have "s' = s \<or> s' = on_leaveRoom c s" by (auto split: if_splits)
  then have "same_timers s s'" by (auto simp: same_timers_refl same_timers_on_leaveRoom)
  then show ?thesis using ok by (rule timers_ok_same)
next
  case (Typing c p)
  with st have "s' = s \<or> on_typing c p s = Inr s'" by (auto split: if_splits)
  then have "same_timers s s'" by (auto simp: same_timers_refl dest: same_timers_on_typing)
  then show ?thesis using ok by (rule timers_ok_same)
next
  case (LanguageChange c p)
  with st have "s' = s \<or> on_languageChange c p s = Inr s'" by (auto split: if_splits)
  then have "same_timers s s'"
    by (auto simp: same_timers_refl dest: same_timers_on_languageChange)
  then show ?thesis using ok by (rule timers_ok_same)
next
  case (Disconnect c)
  have "timers_ok (transport_close c s)"
    using same_timers_transport_close ok by (rule timers_ok_same)
  then have "timers_ok (on_disconnect c (transport_close c s))"
    by (rule timers_ok_on_disconnect)
  with st Disconnect ok show ?thesis by (auto split: if_splits)
next
  case (Elapse n)
  with st have "s' = elapse n s" by simp
  then show ?thesis using timers_ok_elapse [OF ok] by simp
qed

lemma reachable_timers_ok: "reachable s \<Longrightarrow> timers_ok s"
proof (induction rule: reachable.induct)
  case start
  show ?case by (simp add: timers_ok_def init_def)
next
  case (after s e s')
  from after(3) after(2) show ?case by (rule timers_ok_step)
qed

lemma out_flush:
  "out (flush c r s) =
     out s @ [\<lparr>target = ToOthers c (JStr r), ev = ''codeUpdate'',
                payload = (case pendingCode (data s c) of None \<Rightarrow> JNull | Some x \<Rightarrow> JStr x),
                rcpts = filter (\<lambda>x. x \<notin> set (adapter s c)) (adapter s r)\<rparr>]"
  by (simp add: flush_def emit_others_def)

lemma code_updates_by_append [simp]:
  "code_updates_by c (xs @ ys) = code_updates_by c xs @ code_updates_by c ys"
  by (simp add: code_updates_by_def)

lemma code_updates_by_Nil [simp]: "code_updates_by c [] = []"
  by (simp add: code_updates_by_def)

lemma data_flush_other: "c' \<noteq> c \<Longrightarrow> data (flush c' r s) c = data s c"
  by (simp add: data_def socks_flush split: option.splits)

lemma fold_flush_others:
  "c \<notin> owner ` set tms
     \<Longrightarrow> \<exists>new. out (fold (\<lambda>tm. flush (owner tm) (troom tm)) tms s) = out s @ new
              \<and> code_updates_by c new = []"
proof (induction tms arbitrary: s)
  case Nil
  show ?case by simp
next
  case (Cons tm tms)
  then have "c \<notin> owner ` set tms" and ne: "owner tm \<noteq> c" by auto
  from Cons.IH [OF this(1), of "flush (owner tm) (troom tm) s"]
  obtain new where new: "out (fold (\<lambda>tm. flush (owner tm) (troom tm)) tms
                                 (flush (owner tm) (troom tm) s))
                          = out (flush (owner tm) (troom tm) s) @ new"
        "code_updates_by c new = []" by blast
  show ?case
    using new ne by (simp add: out_flush code_updates_by_def)
qed

lemma fold_flush_own:
  assumes "filter (\<lambda>t. owner t = c) tms = [tm]" "pendingCode (data s c) = Some x"
  shows "\<exists>new. out (fold (\<lambda>tm. flush (owner tm) (troom tm)) tms s) = out s @ new
              \<and> code_updates_by c new =
                  [\<lparr>target = ToOthers c (JStr (troom tm)), ev = ''codeUpdate'',
                    payload = JStr x,
                    rcpts = filter (\<lambda>y. y \<notin> set (adapter s c)) (adapter s (troom tm))\<rparr>]"
  using assms
proof (induction tms arbitrary: s)
  case Nil
  then show ?case by simp
next
  case (Cons t ts)
  show ?case
  proof (cases "owner t = c")
    case True
    with Cons.prems(1) have t: "t = tm" and rest: "filter (\<lambda>t. owner t = c) ts = []" by auto
    from rest have "c \<notin> owner ` set ts" by (auto simp: filter_empty_conv)
    from fold_flush_others [OF this, of "flush (owner t) (troom t) s"]
    obtain new where new: "out (fold (\<lambda>tm. flush (owner tm) (troom tm)) ts
                                 (flush (owner t) (troom t) s))
                          = out (flush (owner t) (troom t) s) @ new"
        "code_updates_by c new = []" by blast
    show ?thesis
      using new True t Cons.prems(2) by (simp add: out_flush code_updates_by_def)
  next
    case False
    with Cons.prems(1) have rest: "filter (\<lambda>t. owner t = c) ts = [tm]" by simp
    have pend: "pendingCode (data (flush (owner t) (troom t) s) c) = Some x"
      using False Cons.prems(2) by (simp add: data_flush_other)
    from Cons.IH [OF rest pend]
    obtain new where new: "out (fold (\<lambda>tm. flush (owner tm) (troom tm)) ts
                                 (flush (owner t) (troom t) s))
                          = out (flush (owner t) (troom t) s) @ new"
        "code_updates_by c new =
                  [\<lparr>target = ToOthers c (JStr (troom tm)), ev = ''codeUpdate'',
                    payload = JStr x,
                    rcpts = filter (\<lambda>y. y \<notin> set (adapter (flush (owner t) (troom t) s) c))
                              (adapter (flush (owner t) (troom t) s) (troom tm))\<rparr>]" by blast
    show ?thesis
      using new False by (simp add: out_flush code_updates_by_def)
  qed
qed

lemma no_code_update:
  "(\<forall>x \<in> set new. ev x \<noteq> ''codeUpdate'') \<Longrightarrow> code_updates_by c new = []"
  by (auto simp: code_updates_by_def filter_empty_conv)

lemma safeLeaveRoom_emits:
  "\<exists>new. out (safeLeaveRoom ro un s) = out s @ new \<and> (\<forall>x \<in> set new. ev x \<noteq> ''codeUpdate'')"
  by (auto simp: out_safeLeaveRoom split: option.splits)

lemma on_join_emits:
  "\<exists>new. out (on_join c p s) = out s @ new \<and> (\<forall>x \<in> set new. ev x \<noteq> ''codeUpdate'')"
proof (cases rule: join_ok_cases [of c p s])
  case bad
  then show ?thesis by (auto simp: emit_socket_def)
next
  case (ok r n)
  obtain new where new:
    "out (safeLeaveRoom (currentRoom (data s c)) (userName (data s c)) s) = out s @ new"
    "\<forall>x \<in> set new. ev x \<noteq> ''codeUpdate''"
    using safeLeaveRoom_emits by blast
  show ?thesis
  proof (cases "truthy_field (currentRoom (data s c))")
    case True
    then show ?thesis using new by (simp add: out_on_join [OF ok])
  next
    case False
    then show ?thesis by (simp add: out_on_join [OF ok])
  qed
qed

lemma on_leaveRoom_emits:
  "\<exists>new. out (on_leaveRoom c s) = out s @ new \<and> (\<forall>x \<in> set new. ev x \<noteq> ''codeUpdate'')"
  using safeLeaveRoom_emits [of "currentRoom (data s c)" "userName (data s c)" s]
  by (auto simp: out_on_leaveRoom)

lemma on_disconnect_emits:
  "\<exists>new. out (on_disconnect c s) = out s @ new \<and> (\<forall>x \<in> set new. ev x \<noteq> ''codeUpdate'')"
  using safeLeaveRoom_emits [of "currentRoom (data s c)" "userName (data s c)" s]
  by (auto simp: out_on_disconnect)

lemma out_on_codeChange: "on_codeChange c p s = Inr s' \<Longrightarrow> out s' = out s"
  by (auto simp: on_codeChange_def Let_def split: sum.splits option.splits if_splits)

lemma adapter_on_codeChange: "on_codeChange c p s = Inr s' \<Longrightarrow> adapter s' = adapter s"
  by (auto simp: on_codeChange_def Let_def split: sum.splits option.splits if_splits)

lemma on_typing_emits:
  "on_typing c p s = Inr s'
     \<Longrightarrow> \<exists>new. out s' = out s @ new \<and> (\<forall>x \<in> set new. ev x \<noteq> ''codeUpdate'')"
  by (auto simp: on_typing_def emit_others_def split: sum.splits)

lemma on_languageChange_emits:
  "on_languageChange c p s = Inr s'
     \<Longrightarrow> \<exists>new. out s' = out s @ new \<and> (\<forall>x \<in> set new. ev x \<noteq> ''codeUpdate'')"
  by (auto simp: on_languageChange_def emit_room_def split: sum.splits if_splits)

lemma step_emits:
  assumes "step e s = Inr s'" "sender e \<noteq> None"
  shows "\<exists>new. out s' = out s @ new \<and> (\<forall>x \<in> set new. ev x \<noteq> ''codeUpdate'')"
proof (cases e)
  case (Connect c)
  with assms show ?thesis by (auto split: if_splits)
next
  case (Join c p)
  with assms on_join_emits [of c p s] show ?thesis by (auto split: if_splits)
next
  case (CodeChange c p)
  with assms have "out s' = out s" by (auto split: if_splits dest: out_on_codeChange)
  then show ?thesis by simp
next
  case (LeaveRoom c)
  with assms on_leaveRoom_emits [of c s] show ?thesis by (auto split: if_splits)
next
  case (Typing c p)
  with assms on_typing_emits [of c p s s'] show ?thesis by (auto split: if_splits)
next
  case (LanguageChange c p)
  with assms on_languageChange_emits [of c p s s'] show ?thesis by (auto split: if_splits)
next
  case (Disconnect c)
  with assms on_disconnect_emits [of c "transport_close c s"] show ?thesis
    by (auto split: if_splits)
next
  case (Elapse d)
  with assms show ?thesis by simp
qed

text \<open>Cancelling the timer of one socket leaves the timers of every other socket alone.\<close>

lemma cancel_keeps_others:
  assumes ok: "timers_ok s" and ne: "c' \<noteq> c" and d': "socks s c' = Some d'"
  shows "filter (\<lambda>t. owner t = c) (filter (\<lambda>t. Some (tid t) \<noteq> codeDebounceTimer d') (timers s))
           = filter (\<lambda>t. owner t = c) (timers s)"
proof -
  have "\<And>t. t \<in> set (timers s) \<Longrightarrow> owner t = c \<Longrightarrow> Some (tid t) \<noteq> codeDebounceTimer d'"
  proof
    fix t assume t: "t \<in> set (timers s)" "owner t = c" "Some (tid t) = codeDebounceTimer d'"
    obtain d where d: "socks s (owner t) = Some d" "codeDebounceTimer d = Some (tid t)"
      using timers_ok_owner [OF ok t(1)] by blast
    have "owner t = c'"
      using timers_ok_handle_inj [OF ok d d'] t(3) by simp
    with t(2) ne show False by simp
  qed
  then have "filter (\<lambda>t. Some (tid t) \<noteq> codeDebounceTimer d' \<and> owner t = c) (timers s)
               = filter (\<lambda>t. owner t = c) (timers s)"
    by (intro filter_cong) auto
  then show ?thesis by simp
qed

lemma other_sender_frame:
  assumes ok: "timers_ok s" and st: "step e s = Inr s'"
      and se: "sender e = Some c'" and ne: "c' \<noteq> c"
  shows "socks s' c = socks s c
         \<and> filter (\<lambda>t. owner t = c) (timers s') = filter (\<lambda>t. owner t = c) (timers s)
         \<and> now s' = now s"
proof (cases e)
  case (Connect x)
  with se have x: "x = c'" by simp
  with st Connect ne show ?thesis
    by (auto simp: socks_on_connection split: if_splits)
next
  case (Join x p)
  with se have x: "x = c'" by simp
  have "socks (on_join c' p s) c = socks s c"
  proof (cases rule: join_ok_cases [of c' p s])
    case bad
    then show ?thesis by auto
  next
    case (ok r n)
    then show ?thesis using ne by (simp add: socks_on_join [OF ok] split: option.splits)
  qed
  with st Join x show ?thesis by (auto split: if_splits)
next
  case (CodeChange x p)
  with se have x: "x = c'" by simp
  show ?thesis
  proof (cases "live s c'")
    case False
    with st CodeChange x show ?thesis by simp
  next
    case True
    then obtain d' where d': "socks s c' = Some d'" using live_socks by blast
    from True st CodeChange x have r: "on_codeChange c' p s = Inr s'" by simp
    from on_codeChange_cases [OF r d'] show ?thesis
    proof
      assume "s' = s" then show ?thesis by simp
    next
      assume "\<exists>r. is_edit r p \<and> r \<noteq> [] \<and> currentRoom d' = Some r"
      then obtain r where "is_edit r p" "r \<noteq> []" "currentRoom d' = Some r" by blast
      from on_codeChange_accept [OF this(1,2) d' this(3)] r
      show ?thesis using ne cancel_keeps_others [OF ok ne d'] by auto
    qed
  qed
next
  case (LeaveRoom x)
  with se have x: "x = c'" by simp
  have "socks (on_leaveRoom c' s) c = socks s c"
    using ne by (simp add: socks_on_leaveRoom split: option.splits)
  with st LeaveRoom x show ?thesis by (auto split: if_splits)
next
  case (Typing x p)
  with st show ?thesis
    by (auto simp: on_typing_def split: if_splits sum.splits)
next
  case (LanguageChange x p)
  with st show ?thesis
    by (auto simp: on_languageChange_def split: if_splits sum.splits)
next
  case (Disconnect x)
  with se have x: "x = c'" by simp
  show ?thesis
  proof (cases "live s c'")
    case False
    with st Disconnect x show ?thesis by simp
  next
    case True
    then obtain d' where d': "socks s c' = Some d'" using live_socks by blast
    let ?t = "transport_close c' s"
    from True st Disconnect x have s': "s' = on_disconnect c' ?t" by simp
    have dt: "data ?t c' = d'\<lparr>connected := False\<rparr>"
      using d' by (simp add: data_def socks_transport_close)
    have 1: "socks s' c = socks s c"
      using ne d' by (simp add: s' socks_on_disconnect socks_transport_close split: option.splits)
    have "filter (\<lambda>t. owner t = c) (timers s')
            = filter (\<lambda>t. owner t = c) (filter (\<lambda>t. Some (tid t) \<noteq> codeDebounceTimer d') (timers s))"
      by (cases "codeDebounceTimer d'") (simp_all add: s' on_disconnect_timers dt)
    then have 2: "filter (\<lambda>t. owner t = c) (timers s') = filter (\<lambda>t. owner t = c) (timers s)"
      using cancel_keeps_others [OF ok ne d'] by simp
    have 3: "now s' = now s" by (simp add: s' on_disconnect_timers)
    show ?thesis using 1 2 3 by simp
  qed
next
  case (Elapse n)
  with se show ?thesis by simp
qed

lemma run_append:
  "run (es @ es') s = (case run es s of Inl x \<Rightarrow> Inl x | Inr s' \<Rightarrow> run es' s')"
  by (induction es arbitrary: s) (auto split: sum.splits)

lemma armed_by_edit:
  assumes ok: "timers_ok s" and d: "socks s c = Some d" "connected d" "currentRoom d = Some r"
      and r: "r \<noteq> []" and p: "is_edit r p"
  shows "\<exists>s'. on_codeChange c p s = Inr s' \<and> armed s' c r (str_of (jsprop p ''code'')) 100
              \<and> out s' = out s"
proof -
  let ?keep = "filter (\<lambda>t. Some (tid t) \<noteq> codeDebounceTimer d) (timers s)"
  have "\<And>t. t \<in> set (timers s) \<Longrightarrow> owner t = c \<Longrightarrow> Some (tid t) = codeDebounceTimer d"
  proof -
    fix t assume "t \<in> set (timers s)" "owner t = c"
    then show "Some (tid t) = codeDebounceTimer d"
      using timers_ok_owner [OF ok, of t] d(1) by auto
  qed
  then have none: "filter (\<lambda>t. owner t = c) ?keep = []"
    by (auto simp: filter_empty_conv)
  show ?thesis
    unfolding on_codeChange_accept [OF p r d(1) d(3)] armed_def
    using d none by simp
qed

lemma armed_other:
  assumes ok: "timers_ok s" and a: "armed s c r x left" and st: "step e s = Inr s'"
      and se: "sender e = Some c'" and ne: "c' \<noteq> c"
  shows "armed s' c r x left \<and> (\<exists>new. out s' = out s @ new \<and> code_updates_by c new = [])"
proof -
  from other_sender_frame [OF ok st se ne]
  have "armed s' c r x left" using a by (simp add: armed_def)
  moreover from step_emits [OF st] se
  have "\<exists>new. out s' = out s @ new \<and> code_updates_by c new = []"
    using no_code_update by auto
  ultimately show ?thesis by simp
qed

lemma armed_timer:
  assumes "armed s c r x left"
  obtains d h where "socks s c = Some d" "connected d" "currentRoom d = Some r"
    "pendingCode d = Some x" "codeDebounceTimer d = Some h"
    "filter (\<lambda>t. owner t = c) (timers s) = [\<lparr>tid = h, owner = c, troom = r, due = now s + left\<rparr>]"
    "0 < left"
  using assms unfolding armed_def by blast

lemma armed_elapse_early:
  assumes a: "armed s c r x left" and early: "n < left"
  shows "armed (elapse n s) c r x (left - n)
         \<and> (\<exists>new. out (elapse n s) = out s @ new \<and> code_updates_by c new = [])"
proof -
  from a obtain d h where d: "socks s c = Some d" "connected d" "currentRoom d = Some r"
    "pendingCode d = Some x" "codeDebounceTimer d = Some h"
    and f: "filter (\<lambda>t. owner t = c) (timers s)
              = [\<lparr>tid = h, owner = c, troom = r, due = now s + left\<rparr>]"
    by (rule armed_timer)
  let ?tm = "\<lparr>tid = h, owner = c, troom = r, due = now s + left\<rparr>"
  let ?due = "filter (is_due (now s + n)) (timers s)"
  have late: "\<not> is_due (now s + n) ?tm" using early by (simp add: is_due_def)
  have not_due: "c \<notin> owner ` set ?due"
  proof
    assume "c \<in> owner ` set ?due"
    then obtain t where t: "t \<in> set (timers s)" "is_due (now s + n) t" "owner t = c" by auto
    then have "t \<in> set (filter (\<lambda>t. owner t = c) (timers s))" by simp
    with f have "t = ?tm" by simp
    with t(2) late show False by simp
  qed
  have so: "socks (elapse n s) c = socks s c"
    using not_due by (simp add: socks_elapse)
  have "filter (\<lambda>t. owner t = c) (timers (elapse n s))
          = filter (\<lambda>t. \<not> is_due (now s + n) t) (filter (\<lambda>t. owner t = c) (timers s))"
    by (simp add: conj_commute)
  also have "\<dots> = [?tm]" using late by (simp add: f)
  finally have ft: "filter (\<lambda>t. owner t = c) (timers (elapse n s)) = [?tm]" .
  have "now (elapse n s) + (left - n) = now s + left" using early by simp
  then have "armed (elapse n s) c r x (left - n)"
    unfolding armed_def using so d ft early by simp
  moreover have "\<exists>new. out (elapse n s) = out s @ new \<and> code_updates_by c new = []"
    unfolding elapse_def
    using fold_flush_others [OF not_due,
        of "s\<lparr>now := now s + n, timers := filter (\<lambda>tm. \<not> is_due (now s + n) tm) (timers s)\<rparr>"]
    by simp
  ultimately show ?thesis by simp
qed

lemma armed_elapse_flush:
  assumes a: "armed s c r x left" and enough: "left \<le> n"
  shows "\<exists>new. out (elapse n s) = out s @ new
           \<and> code_updates_by c new =
               [\<lparr>target = ToOthers c (JStr r), ev = ''codeUpdate'', payload = JStr x,
                 rcpts = filter (\<lambda>y. y \<notin> set (adapter s c)) (adapter s r)\<rparr>]"
proof -
  from a obtain d h where d: "socks s c = Some d" "pendingCode d = Some x"
    and f: "filter (\<lambda>t. owner t = c) (timers s)
              = [\<lparr>tid = h, owner = c, troom = r, due = now s + left\<rparr>]"
    by (rule armed_timer)
  let ?tm = "\<lparr>tid = h, owner = c, troom = r, due = now s + left\<rparr>"
  let ?due = "filter (is_due (now s + n)) (timers s)"
  let ?s0 = "s\<lparr>now := now s + n, timers := filter (\<lambda>tm. \<not> is_due (now s + n) tm) (timers s)\<rparr>"
  have "filter (\<lambda>t. owner t = c) ?due
          = filter (is_due (now s + n)) (filter (\<lambda>t. owner t = c) (timers s))"
    by (simp add: conj_commute)
  also have "\<dots> = [?tm]" using enough by (simp add: f is_due_def)
  finally have own: "filter (\<lambda>t. owner t = c) ?due = [?tm]" .
  have pend: "pendingCode (data ?s0 c) = Some x" using d by (simp add: data_def)
  from fold_flush_own [OF own pend] show ?thesis
    unfolding elapse_def by simp
qed

text \<open>Typing and language events touch neither socket data nor timers nor the clock.\<close>

lemma chatter_frame:
  assumes "step e s = Inr s'" "e = Typing y p \<or> e = LanguageChange y p"
  shows "socks s' = socks s \<and> timers s' = timers s \<and> now s' = now s"
  using assms
  by (auto simp: on_typing_def on_languageChange_def split: if_splits sum.splits)

lemma burst_keeps_armed:
  assumes "reachable s" "armed s c r x left" "window c r left es = Some left'"
      and "run es s = Inr s1"
  shows "reachable s1 \<and> armed s1 c r (last_code c x es) left'
         \<and> (\<exists>new. out s1 = out s @ new \<and> code_updates_by c new = [])"
  using assms
proof (induction es arbitrary: s x left)
  case Nil
  then show ?case by simp
next
  case (Cons e es)
  from Cons.prems(4) obtain s' where st: "step e s = Inr s'" and rest: "run es s' = Inr s1"
    by (auto split: sum.splits)
  have rs': "reachable s'" using Cons.prems(1) st by (rule reachable.after)
  note ok = reachable_timers_ok [OF Cons.prems(1)]
  have "\<exists>x' l'. armed s' c r x' l' \<and> window c r l' es = Some left'
                \<and> last_code c x (e # es) = last_code c x' es
                \<and> (\<exists>new. out s' = out s @ new \<and> code_updates_by c new = [])"
  proof (cases "\<exists>y p. e = Typing y p \<or> e = LanguageChange y p")
    case True
    then obtain y p where e: "e = Typing y p \<or> e = LanguageChange y p" by blast
    from chatter_frame [OF st e] Cons.prems(2)
    have a: "armed s' c r x left" by (simp add: armed_def)
    have w: "window c r left es = Some left'" using Cons.prems(3) e by auto
    have l: "last_code c x (e # es) = last_code c x es" using e by auto
    have "sender e \<noteq> None" using e by auto
    from step_emits [OF st this]
    have "\<exists>new. out s' = out s @ new \<and> code_updates_by c new = []"
      using no_code_update by auto
    with a w l show ?thesis by blast
  next
    case chat: False
    show ?thesis
    proof (cases "sender e")
      case None
      then obtain n where e: "e = Elapse n" by (cases e) auto
      with Cons.prems(3) have n: "n < left" "window c r (left - n) es = Some left'"
        by (auto split: if_splits)
      from st e have s': "s' = elapse n s" by simp
      from armed_elapse_early [OF Cons.prems(2) n(1)] n(2) e s' show ?thesis
        by auto
    next
      case (Some c')
      show ?thesis
      proof (cases "c' = c")
        case False
        from armed_other [OF ok Cons.prems(2) st Some False]
        have a: "armed s' c r x left"
             "\<exists>new. out s' = out s @ new \<and> code_updates_by c new = []" by simp_all
        have w: "window c r left es = Some left'"
          using Cons.prems(3) Some False by (cases e) (auto split: if_splits)
        have l: "last_code c x (e # es) = last_code c x es"
          using Some False by (cases e) auto
        from a w l show ?thesis by blast
      next
        case True
        with Some Cons.prems(3) chat obtain p where e: "e = CodeChange c p"
          and p: "is_edit r p" and w: "window c r 100 es = Some left'"
          by (cases e) (auto split: if_splits)
        from Cons.prems(2) obtain d where d: "socks s c = Some d" "connected d"
            "currentRoom d = Some r"
          by (rule armed_timer)
        have r: "r \<noteq> []"
          using well_namedD [OF reachable_well_named [OF Cons.prems(1)] d(1)] d(3) by auto
        have lv: "live s c" using d by (simp add: live_def)
        from armed_by_edit [OF ok d r p] st e lv
        have "armed s' c r (str_of (jsprop p ''code'')) 100" "out s' = out s" by auto
        with w e show ?thesis by auto
      qed
    qed
  qed
  then obtain x' l' new where a': "armed s' c r x' l'" and w': "window c r l' es = Some left'"
    and lc: "last_code c x (e # es) = last_code c x' es"
    and new: "out s' = out s @ new" "code_updates_by c new = []" by blast
  from Cons.IH [OF rs' a' w' rest]
  obtain new2 where "reachable s1" "armed s1 c r (last_code c x' es) left'"
    "out s1 = out s' @ new2" "code_updates_by c new2 = []" by blast
  with lc new show ?case by auto
qed

section \<open>Rosters under distinct names\<close>

lemma distinct_namesD:
  "distinct_names s \<Longrightarrow> socks s c1 = Some d1 \<Longrightarrow> connected d1 \<Longrightarrow> socks s c2 = Some d2
     \<Longrightarrow> connected d2 \<Longrightarrow> currentRoom d1 = Some r \<Longrightarrow> currentRoom d2 = Some r
     \<Longrightarrow> userName d1 = userName d2 \<Longrightarrow> c1 = c2"
  unfolding distinct_names_def by (metis option.distinct(1))

lemma listedD:
  "listed s \<Longrightarrow> socks s c = Some d \<Longrightarrow> connected d \<Longrightarrow> currentRoom d = Some r
     \<Longrightarrow> userName d = Some n \<Longrightarrow> n \<in> set (participants s r)"
  unfolding listed_def by blast

lemma listed_same:
  assumes "same_membership s s'" "listed s"
  shows "listed s'"
  unfolding listed_def
proof (intro allI impI)
  fix c d' r n
  assume h: "socks s' c = Some d' \<and> connected d' \<and> currentRoom d' = Some r \<and> userName d' = Some n"
  then obtain d where "socks s c = Some d" "connected d" "currentRoom d = Some r"
      "userName d = Some n"
    using same_membership_socksD [OF assms(1), of c d'] by auto
  then have "n \<in> set (participants s r)" using listedD [OF assms(2)] by blast
  moreover have "rooms s' = rooms s" using assms(1) by (simp add: same_membership_def)
  ultimately show "n \<in> set (participants s' r)" by (simp add: participants_def)
qed

text \<open>When a socket leaves, the names of the other sockets stay in their rosters.\<close>

lemma kept_by_others:
  assumes inv: "paired s" "well_named s" "distinct_names s" "listed s"
      and d: "socks s c = Some d" "connected d"
      and d': "c' \<noteq> c" "socks s c' = Some d'" "connected d'" "currentRoom d' = Some r'"
              "userName d' = Some n'"
  shows "n' \<in> set (participants (if truthy_field (currentRoom d)
                                  then safeLeaveRoom (currentRoom d) (userName d) s else s) r')"
proof (cases "truthy_field (currentRoom d)")
  case False
  then show ?thesis using listedD [OF inv(4) d'(2-5)] by simp
next
  case True
  then obtain r0 n0 where rn: "currentRoom d = Some r0" "userName d = Some n0" "r0 \<noteq> []"
    using truthy_fields_agree(2) [OF inv(1,2) d(1)] by blast
  have in_s: "n' \<in> set (participants s r')" using listedD [OF inv(4) d'(2-5)] .
  have "\<not> (r' = r0 \<and> n' = n0)"
  proof
    assume "r' = r0 \<and> n' = n0"
    then have "c' = c"
      using distinct_namesD [OF inv(3) d'(2,3) d(1,2), of r0] d'(4,5) rn by simp
    with d'(1) show False by simp
  qed
  then show ?thesis
    using True rn in_s
    by (auto simp: participants_safeLeaveRoom set_delete_def)
qed

lemma listed_step:
  assumes inv: "paired s" "well_named s" "distinct_names s" "listed s"
      and st: "step e s = Inr s'"
  shows "listed s'"
proof (cases e)
  case (Connect c)
  show ?thesis
  proof (cases "socks s c")
    case (Some d)
    with st Connect show ?thesis using inv(4) by simp
  next
    case None
    with st Connect have s': "s' = on_connection c s" by simp
    show ?thesis
      unfolding listed_def
    proof (intro allI impI)
      fix c' d' r n
      assume h: "socks s' c' = Some d' \<and> connected d' \<and> currentRoom d' = Some r
                 \<and> userName d' = Some n"
      then have "c' \<noteq> c" by (auto simp: s' socks_on_connection split: if_splits)
      with h have "socks s c' = Some d'" by (simp add: s' socks_on_connection)
      with h have "n \<in> set (participants s r)" using listedD [OF inv(4)] by blast
      then show "n \<in> set (participants s' r)" by (simp add: s' participants_def)
    qed
  qed
next
  case (Join c p)
  show ?thesis
  proof (cases "live s c")
    case False
    with st Join show ?thesis using inv(4) by simp
  next
    case True
    then obtain d where d: "socks s c = Some d" "connected d"
      using live_socks by blast
    from True st Join have s': "s' = on_join c p s" by simp
    show ?thesis
    proof (cases rule: join_ok_cases [of c p s])
      case bad
      then have "same_membership s (on_join c p s)"
        by (auto simp: same_membership_frame)
      then show ?thesis using inv(4) s' listed_same by blast
    next
      case (ok r n)
      let ?L = "if truthy_field (currentRoom d)
                then safeLeaveRoom (currentRoom d) (userName d) s else s"
      have dd: "data s c = d" using d by (simp add: data_def)
      have rooms': "rooms s' = (rooms ?L)(r \<mapsto> set_add n (case rooms ?L r of None \<Rightarrow> [] | Some ns \<Rightarrow> ns))"
        using ok jsprop_string_truthy [OF ok(1)]
        by (simp add: s' rooms_on_join dd Let_def)
      have socks': "socks s' = (socks s)(c \<mapsto> d\<lparr>currentRoom := Some r, userName := Some n\<rparr>)"
        by (simp add: s' socks_on_join [OF ok] d)
      have grow: "\<And>r' m. m \<in> set (participants ?L r') \<Longrightarrow> m \<in> set (participants s' r')"
        by (auto simp: participants_def rooms' set_add_def split: option.splits)
      show ?thesis
        unfolding listed_def
      proof (intro allI impI)
        fix c' d' r' n'
        assume h: "socks s' c' = Some d' \<and> connected d' \<and> currentRoom d' = Some r'
                   \<and> userName d' = Some n'"
        show "n' \<in> set (participants s' r')"
        proof (cases "c' = c")
          case True
          with h have "r' = r" "n' = n" by (auto simp: socks')
          then show ?thesis by (simp add: participants_def rooms' set_add_def)
        next
          case False
          with h have "socks s c' = Some d'" by (simp add: socks')
          from kept_by_others [OF inv d False this] h
          have "n' \<in> set (participants ?L r')" by blast
          then show ?thesis by (rule grow)
        qed
      qed
    qed
  qed
next
  case (CodeChange c p)
  with st have "s' = s \<or> on_codeChange c p s = Inr s'" by (auto split: if_splits)
  then have "same_membership s s'"
    by (auto simp: same_membership_refl dest: same_membership_on_codeChange)
  then show ?thesis using inv(4) by (rule listed_same)
next
  case (LeaveRoom c)
  show ?thesis
  proof (cases "live s c")
    case False
    with st LeaveRoom show ?thesis using inv(4) by simp
  next
    case True
    then obtain d where d: "socks s c = Some d" "connected d"
      using live_socks by blast
    from True st LeaveRoom have s': "s' = on_leaveRoom c s" by simp
    let ?L = "if truthy_field (currentRoom d)
              then safeLeaveRoom (currentRoom d) (userName d) s else s"
    have dd: "data s c = d" using d by (simp add: data_def)
    have rooms': "rooms s' = rooms ?L"
      using truthy_fields_agree(1) [OF inv(1,2) d(1)] by (simp add: s' rooms_on_leaveRoom dd)
    have socks': "socks s' = (socks s)(c \<mapsto> d\<lparr>currentRoom := None, userName := None\<rparr>)"
      by (simp add: s' socks_on_leaveRoom d)
    show ?thesis
      unfolding listed_def
    proof (intro allI impI)
      fix c' d' r' n'
      assume h: "socks s' c' = Some d' \<and> connected d' \<and> currentRoom d' = Some r'
                 \<and> userName d' = Some n'"
      then have ne: "c' \<noteq> c" by (auto simp: socks' split: if_splits)
      with h have "socks s c' = Some d'" by (simp add: socks')
      from kept_by_others [OF inv d ne this] h
      have "n' \<in> set (participants ?L r')" by blast
      then show "n' \<in> set (participants s' r')" by (simp add: participants_def rooms')
    qed
  qed
next
  case (Typing c p)
  with st have "s' = s \<or> on_typing c p s = Inr s'" by (auto split: if_splits)
  then have "same_membership s s'"
    by (auto simp: same_membership_refl dest: same_membership_on_typing)
  then show ?thesis using inv(4) by (rule listed_same)
next
  case (LanguageChange c p)
  with st have "s' = s \<or> on_languageChange c p s = Inr s'" by (auto split: if_splits)
  then have "same_membership s s'"
    by (auto simp: same_membership_refl dest: same_membership_on_languageChange)
  then show ?thesis using inv(4) by (rule listed_same)
next
  case (Disconnect c)
  show ?thesis
  proof (cases "live s c")
    case False
    with st Disconnect show ?thesis using inv(4) by simp
  next
    case True
    then obtain d where d: "socks s c = Some d" "connected d"
      using live_socks by blast
    let ?t = "transport_close c s"
    from True st Disconnect have s': "s' = on_disconnect c ?t" by simp
    let ?L = "if truthy_field (currentRoom d)
              then safeLeaveRoom (currentRoom d) (userName d) s else s"
    let ?M = "if truthy_field (currentRoom (data ?t c)) \<and> truthy_field (userName (data ?t c))
              then safeLeaveRoom (currentRoom (data ?t c)) (userName (data ?t c)) ?t else ?t"
    have dt: "data ?t c = d\<lparr>connected := False\<rparr>"
      using d by (simp add: data_def socks_transport_close)
    have roomsM: "rooms ?M = rooms ?L"
      using truthy_fields_agree(1) [OF inv(1,2) d(1)]
      by (simp add: dt rooms_safeLeaveRoom split: option.splits)
    have socksM: "socks ?M = (socks s)(c \<mapsto> d\<lparr>connected := False\<rparr>)"
      using d by (simp add: socks_transport_close)
    have "listed ?M"
      unfolding listed_def
    proof (intro allI impI)
      fix c' d' r' n'
      assume h: "socks ?M c' = Some d' \<and> connected d' \<and> currentRoom d' = Some r'
                 \<and> userName d' = Some n'"
      then have ne: "c' \<noteq> c" unfolding socksM by (auto split: if_splits)
      with h have "socks s c' = Some d'" unfolding socksM by simp
      from kept_by_others [OF inv d ne this] h
      have "n' \<in> set (participants ?L r')" by blast
      then show "n' \<in> set (participants ?M r')" using roomsM by (simp add: participants_def)
    qed
    then show ?thesis
      unfolding s' by (rule listed_same [OF on_disconnect_same])
  qed
next
  case (Elapse d)
  with st have "s' = elapse d s" by simp
  then show ?thesis using listed_same [OF same_membership_elapse inv(4)] by simp
qed

lemma reachable_distinct_reachable: "reachable_distinct s \<Longrightarrow> reachable s"
  by (induction rule: reachable_distinct.induct) (auto intro: reachable.intros)

lemma reachable_distinct_names: "reachable_distinct s \<Longrightarrow> distinct_names s"
  by (induction rule: reachable_distinct.induct) (simp_all add: distinct_names_def init_def)

lemma reachable_distinct_listed: "reachable_distinct s \<Longrightarrow> listed s"
proof (induction rule: reachable_distinct.induct)
  case start_distinct
  show ?case by (simp add: listed_def init_def)
next
  case (after_distinct s e s')
  have r: "reachable s" using after_distinct(1) by (rule reachable_distinct_reachable)
  show ?case
    using reachable_paired [OF r] reachable_well_named [OF r]
          reachable_distinct_names [OF after_distinct(1)] after_distinct(4) after_distinct(2)
    by (rule listed_step)
qed

section \<open>Departures and the directory\<close>

lemma leave_updates_directory:
  assumes "reachable s" "live s c" "currentRoom (data s c) = Some r" "rooms s r = Some ns"
  shows "\<exists>n. userName (data s c) = Some n
           \<and> rooms (on_leaveRoom c s) r = (if removeAll n ns = [] then None else Some (removeAll n ns))
           \<and> rooms (on_disconnect c (transport_close c s)) r
                = (if removeAll n ns = [] then None else Some (removeAll n ns))"
proof -
  obtain d n where d: "socks s c = Some d" "connected d" "currentRoom d = Some r"
      "userName d = Some n" "r \<noteq> []" "n \<noteq> []"
    using in_room_facts [OF assms(1-3)] by blast
  have dd: "data s c = d" using d(1) by (simp add: data_def)
  let ?t = "transport_close c s"
  have dt: "data ?t c = d\<lparr>connected := False\<rparr>"
    using d(1) by (simp add: data_def socks_transport_close)
  have r1: "rooms (on_leaveRoom c s) r = (if removeAll n ns = [] then None else Some (removeAll n ns))"
    using assms(4) d(3-6) by (simp add: rooms_on_leaveRoom dd rooms_safeLeaveRoom set_delete_def)
  have r2: "rooms (on_disconnect c ?t) r = (if removeAll n ns = [] then None else Some (removeAll n ns))"
    using assms(4) d(3-6) by (simp add: rooms_on_disconnect dt rooms_safeLeaveRoom set_delete_def)
  show ?thesis using dd d(4) r1 r2 by simp
qed

lemma run_to_state_after: "\<not> isl (run tr init) \<Longrightarrow> run tr init = Inr (state_after tr)"
  by (cases "run tr init") (simp_all add: state_after_def)

lemma reachable_distinct_snoc:
  assumes "reachable_distinct (state_after tr)" "\<not> isl (run (tr @ [e]) init)"
      and "distinct_names (state_after (tr @ [e]))"
  shows "reachable_distinct (state_after (tr @ [e]))"
proof -
  from assms(2) obtain s' where s': "run (tr @ [e]) init = Inr s'"
    by (cases "run (tr @ [e]) init") auto
  then obtain s where s: "run tr init = Inr s" "step e s = Inr s'"
    by (auto simp: run_append split: sum.splits)
  have "state_after tr = s" "state_after (tr @ [e]) = s'"
    using s s' by (simp_all add: state_after_def)
  with assms(1,3) s(2) show ?thesis
    by (auto intro: reachable_distinct.after_distinct)
qed

lemma distinct_names_by_data:
  assumes "\<And>c1 c2. c1 \<noteq> c2 \<Longrightarrow> live s c1 \<Longrightarrow> live s c2
             \<Longrightarrow> currentRoom (data s c1) \<noteq> None
             \<Longrightarrow> currentRoom (data s c1) = currentRoom (data s c2)
             \<Longrightarrow> userName (data s c1) \<noteq> userName (data s c2)"
  shows "distinct_names s"
  unfolding distinct_names_def
proof (intro allI impI)
  fix c1 c2 d1 d2
  assume h: "socks s c1 = Some d1 \<and> connected d1 \<and> socks s c2 = Some d2 \<and> connected d2
             \<and> currentRoom d1 \<noteq> None \<and> currentRoom d1 = currentRoom d2
             \<and> userName d1 = userName d2"
  show "c1 = c2"
  proof (rule ccontr)
    assume ne: "c1 \<noteq> c2"
    from h have l: "live s c1" "live s c2" and d: "data s c1 = d1" "data s c2 = d2"
      by (simp_all add: live_def data_def)
    from h have r: "currentRoom (data s c1) \<noteq> None"
      "currentRoom (data s c1) = currentRoom (data s c2)"
      unfolding d by blast+
    from assms [OF ne l r] d h show False by blast
  qed
qed

lemma reachable_distinct_alice_and_bob: "reachable_distinct alice_and_bob"
proof -
  have 0: "reachable_distinct (state_after [])"
    by (simp add: state_after_def reachable_distinct.start_distinct)
  have "reachable_distinct (state_after ([] @ [Connect ''x'']))"
  proof (rule reachable_distinct_snoc [OF 0])
    show "\<not> isl (run ([] @ [Connect ''x'']) init)" by code_simp
    show "distinct_names (state_after ([] @ [Connect ''x'']))"
      by (rule distinct_names_by_data) (auto simp: model_defs split: if_splits)
  qed
  then have 1: "reachable_distinct (state_after [Connect ''x''])" by simp
  have "reachable_distinct (state_after ([Connect ''x''] @ [Connect ''y'']))"
  proof (rule reachable_distinct_snoc [OF 1])
    show "\<not> isl (run ([Connect ''x''] @ [Connect ''y'']) init)" by code_simp
    show "distinct_names (state_after ([Connect ''x''] @ [Connect ''y'']))"
      by (rule distinct_names_by_data) (auto simp: model_defs split: if_splits)
  qed
  then have 2: "reachable_distinct (state_after [Connect ''x'', Connect ''y''])" by simp
  have "reachable_distinct (state_after ([Connect ''x'', Connect ''y'']
              @ [Join ''x'' (join_payload ''R'' ''Alice'')]))"
  proof (rule reachable_distinct_snoc [OF 2])
    show "\<not> isl (run ([Connect ''x'', Connect ''y'']
              @ [Join ''x'' (join_payload ''R'' ''Alice'')]) init)" by code_simp
    show "distinct_names (state_after ([Connect ''x'', Connect ''y'']
              @ [Join ''x'' (join_payload ''R'' ''Alice'')]))"
      by (rule distinct_names_by_data) (auto simp: model_defs split: if_splits)
  qed
  then have 3: "reachable_distinct (state_after [Connect ''x'', Connect ''y'',
              Join ''x'' (join_payload ''R'' ''Alice'')])" by simp
  have "reachable_distinct (state_after ([Connect ''x'', Connect ''y'',
              Join ''x'' (join_payload ''R'' ''Alice'')] @ [Join ''y'' (join_payload ''R'' ''Bob'')]))"
  proof (rule reachable_distinct_snoc [OF 3])
    show "\<not> isl (run ([Connect ''x'', Connect ''y'',
              Join ''x'' (join_payload ''R'' ''Alice'')] @ [Join ''y'' (join_payload ''R'' ''Bob'')]) init)"
      by code_simp
    show "distinct_names (state_after ([Connect ''x'', Connect ''y'',
              Join ''x'' (join_payload ''R'' ''Alice'')] @ [Join ''y'' (join_payload ''R'' ''Bob'')]))"
      by (rule distinct_names_by_data) (auto simp: model_defs split: if_splits)
  qed
  then show ?thesis by (simp add: alice_and_bob_def)
qed

section \<open>The claims\<close>

text \<open>
  C1 as stated fails: \<open>socket.to(R)\<close> leaves out the sockets subscribed to the room named
  by the sender's socket id, which need not be the sender alone. In the first run socket
  y is in room R; socket x joins the room named \<open>x\<close> and then room R, which unsubscribes
  it from the room of its own id: its \<open>codeUpdate\<close> for R is delivered to y and to x
  itself. In the second run x and y share the room named \<open>x\<close>: the \<open>codeUpdate\<close> of x for
  that room is delivered to nobody, although y is in the room.
\<close>

theorem own_room_breaks_exclusion:
  "emitted [Connect ''x'', Connect ''y'', Join ''y'' (join_payload ''R'' ''Bob''),
            Join ''x'' (join_payload ''x'' ''Alice''), Join ''x'' (join_payload ''R'' ''Alice''),
            CodeChange ''x'' (code_payload ''R'' ''abc''), Elapse 100]
   = Inr [\<lparr>target = ToRoom ''R'', ev = ''userJoined'', payload = roster [''Bob''],
              rcpts = [''y'']\<rparr>,
            \<lparr>target = ToRoom ''x'', ev = ''userJoined'', payload = roster [''Alice''],
              rcpts = [''x'']\<rparr>,
            \<lparr>target = ToRoom ''x'', ev = ''userJoined'', payload = roster [],
              rcpts = [''x'']\<rparr>,
            \<lparr>target = ToRoom ''R'', ev = ''userJoined'', payload = roster [''Bob'', ''Alice''],
              rcpts = [''y'', ''x'']\<rparr>,
            \<lparr>target = ToOthers ''x'' (JStr ''R''), ev = ''codeUpdate'', payload = JStr ''abc'',
              rcpts = [''y'', ''x'']\<rparr>]
   \<and> emitted [Connect ''x'', Connect ''y'', Join ''x'' (join_payload ''x'' ''Alice''),
            Join ''y'' (join_payload ''x'' ''Bob''),
            CodeChange ''x'' (code_payload ''x'' ''abc''), Elapse 100]
   = Inr [\<lparr>target = ToRoom ''x'', ev = ''userJoined'', payload = roster [''Alice''],
              rcpts = [''x'']\<rparr>,
            \<lparr>target = ToRoom ''x'', ev = ''userJoined'', payload = roster [''Alice'', ''Bob''],
              rcpts = [''x'', ''y'']\<rparr>,
            \<lparr>target = ToOthers ''x'' (JStr ''x''), ev = ''codeUpdate'', payload = JStr ''abc'',
              rcpts = []\<rparr>]"
  by code_simp

text \<open>
  C1, amended. A connected socket whose current room is R sends one or more well-formed
  edits for R, each while the debounce window opened by the previous one is still open,
  and sends no join, leaveRoom or disconnect meanwhile (other sockets may send anything,
  as long as no listener throws). Once the window has run out, exactly one \<open>codeUpdate\<close>
  of that socket has been broadcast since the first edit; it carries the code of the last
  edit and is delivered to the sockets subscribed to R at that moment that are not
  subscribed to the room named by the sender's socket id. Provided the sender alone is
  subscribed to the room named by its id, the sender is not among the recipients and
  every other connected socket whose current room is R is.
\<close>

theorem debounce_coalescing:
  assumes "reachable s" "live s c" "currentRoom (data s c) = Some r"
      and "is_edit r p" "window c r 100 es = Some left" "left \<le> n"
      and "\<not> isl (run (CodeChange c p # es) s)"
  shows "\<exists>s1 s2. run (CodeChange c p # es) s = Inr s1
           \<and> run (CodeChange c p # es @ [Elapse n]) s = Inr s2
           \<and> code_updates_by c (drop (length (out s)) (out s2)) =
               [\<lparr>target = ToOthers c (JStr r), ev = ''codeUpdate'',
                 payload = JStr (last_code c (str_of (jsprop p ''code'')) es),
                 rcpts = filter (\<lambda>y. y \<notin> set (adapter s1 c)) (adapter s1 r)\<rparr>]
           \<and> (set (adapter s1 c) = {c}
                \<longrightarrow> c \<notin> set (filter (\<lambda>y. y \<notin> set (adapter s1 c)) (adapter s1 r))
                  \<and> (\<forall>c'. c' \<noteq> c \<and> live s1 c' \<and> currentRoom (data s1 c') = Some r
                        \<longrightarrow> c' \<in> set (filter (\<lambda>y. y \<notin> set (adapter s1 c)) (adapter s1 r))))"
proof -
  from assms(7) obtain s1 where s1: "run (CodeChange c p # es) s = Inr s1"
    by (cases "run (CodeChange c p # es) s") auto
  then obtain s' where st: "step (CodeChange c p) s = Inr s'" and rest: "run es s' = Inr s1"
    by (auto split: sum.splits)
  obtain d where d: "socks s c = Some d" "connected d" "currentRoom d = Some r" "r \<noteq> []"
    using in_room_facts [OF assms(1-3)] by blast
  from armed_by_edit [OF reachable_timers_ok [OF assms(1)] d assms(4)] st assms(2)
  have a: "armed s' c r (str_of (jsprop p ''code'')) 100" and o: "out s' = out s"
    by auto
  have rs': "reachable s'" using assms(1) st by (rule reachable.after)
  from burst_keeps_armed [OF rs' a assms(5) rest]
  obtain new1 where r1: "reachable s1"
    and a1: "armed s1 c r (last_code c (str_of (jsprop p ''code'')) es) left"
    and n1: "out s1 = out s' @ new1" "code_updates_by c new1 = []" by blast
  from armed_elapse_flush [OF a1 assms(6)]
  obtain new2 where n2: "out (elapse n s1) = out s1 @ new2"
    "code_updates_by c new2 =
       [\<lparr>target = ToOthers c (JStr r), ev = ''codeUpdate'',
         payload = JStr (last_code c (str_of (jsprop p ''code'')) es),
         rcpts = filter (\<lambda>y. y \<notin> set (adapter s1 c)) (adapter s1 r)\<rparr>]" by blast
  have s2: "run (CodeChange c p # es @ [Elapse n]) s = Inr (elapse n s1)"
    using s1 run_append [of "CodeChange c p # es" "[Elapse n]" s] by simp
  have cu: "code_updates_by c (drop (length (out s)) (out (elapse n s1))) =
               [\<lparr>target = ToOthers c (JStr r), ev = ''codeUpdate'',
                 payload = JStr (last_code c (str_of (jsprop p ''code'')) es),
                 rcpts = filter (\<lambda>y. y \<notin> set (adapter s1 c)) (adapter s1 r)\<rparr>]"
    using n1 n2 o by simp
  have others: "set (adapter s1 c) = {c}
                \<longrightarrow> c \<notin> set (filter (\<lambda>y. y \<notin> set (adapter s1 c)) (adapter s1 r))
                  \<and> (\<forall>c'. c' \<noteq> c \<and> live s1 c' \<and> currentRoom (data s1 c') = Some r
                        \<longrightarrow> c' \<in> set (filter (\<lambda>y. y \<notin> set (adapter s1 c)) (adapter s1 r)))"
  proof (intro impI conjI allI)
    assume own: "set (adapter s1 c) = {c}"
    then show "c \<notin> set (filter (\<lambda>y. y \<notin> set (adapter s1 c)) (adapter s1 r))" by simp
    fix c'
    assume h: "c' \<noteq> c \<and> live s1 c' \<and> currentRoom (data s1 c') = Some r"
    then have "c' \<in> set (adapter s1 r)"
      using in_room_facts [OF r1, of c' r] by blast
    with h own show "c' \<in> set (filter (\<lambda>y. y \<notin> set (adapter s1 c)) (adapter s1 r))" by simp
  qed
  show ?thesis using s1 s2 cu others by blast
qed

theorem debounce_coalescing_witness:
  "\<exists>s1 s2. run [CodeChange ''x'' (code_payload ''R'' ''a''), Elapse 20,
                 CodeChange ''x'' (code_payload ''R'' ''ab''),
                 Typing ''y'' (JObj [(''roomId'', JStr ''R''), (''userName'', JStr ''Bob'')]),
                 Elapse 20, CodeChange ''x'' (code_payload ''R'' ''abc''), Elapse 99]
               alice_and_bob = Inr s1
           \<and> run [CodeChange ''x'' (code_payload ''R'' ''a''), Elapse 20,
                 CodeChange ''x'' (code_payload ''R'' ''ab''),
                 Typing ''y'' (JObj [(''roomId'', JStr ''R''), (''userName'', JStr ''Bob'')]),
                 Elapse 20, CodeChange ''x'' (code_payload ''R'' ''abc''), Elapse 99, Elapse 1]
               alice_and_bob = Inr s2
           \<and> code_updates_by ''x'' (drop (length (out alice_and_bob)) (out s2)) =
               [\<lparr>target = ToOthers ''x'' (JStr ''R''), ev = ''codeUpdate'',
                 payload = JStr ''abc'', rcpts = [''y'']\<rparr>]
           \<and> set (adapter s1 ''x'') = {''x''}
           \<and> ''y'' \<noteq> ''x'' \<and> live s1 ''y'' \<and> currentRoom (data s1 ''y'') = Some ''R''
           \<and> ''x'' \<notin> set (filter (\<lambda>y. y \<notin> set (adapter s1 ''x'')) (adapter s1 ''R''))
           \<and> ''y'' \<in> set (filter (\<lambda>y. y \<notin> set (adapter s1 ''x'')) (adapter s1 ''R''))"
proof -
  let ?tr = "[Connect ''x'', Connect ''y'', Join ''x'' (join_payload ''R'' ''Alice''),
              Join ''y'' (join_payload ''R'' ''Bob'')]"
  let ?es = "[Elapse 20, CodeChange ''x'' (code_payload ''R'' ''ab''),
              Typing ''y'' (JObj [(''roomId'', JStr ''R''), (''userName'', JStr ''Bob'')]),
              Elapse 20, CodeChange ''x'' (code_payload ''R'' ''abc''), Elapse 99]"
  let ?S = "state_after (?tr @ CodeChange ''x'' (code_payload ''R'' ''a'') # ?es)"
  have e: "is_edit ''R'' (code_payload ''R'' ''a'')"
    by (simp add: is_edit_def code_payload_def)
  have w: "window ''x'' ''R'' 100 ?es = Some 1"
    by (simp add: is_edit_def code_payload_def)
  have l: "(1::nat) \<le> 1" by simp
  have t: "\<not> isl (run (CodeChange ''x'' (code_payload ''R'' ''a'') # ?es) alice_and_bob)"
    by code_simp
  have c: "last_code ''x'' (str_of (jsprop (code_payload ''R'' ''a'') ''code'')) ?es = ''abc''"
    by (simp add: code_payload_def)
  have "run ?tr init = Inr alice_and_bob"
    unfolding alice_and_bob_def by (rule run_to_state_after) code_simp
  moreover have "run (?tr @ CodeChange ''x'' (code_payload ''R'' ''a'') # ?es) init = Inr ?S"
    by (rule run_to_state_after) code_simp
  ultimately have S: "run (CodeChange ''x'' (code_payload ''R'' ''a'') # ?es) alice_and_bob = Inr ?S"
    by (simp only: run_append sum.case)
  have f: "adapter ?S ''x'' = [''x'']" "adapter ?S ''R'' = [''x'', ''y'']"
    "live ?S ''y''" "currentRoom (data ?S ''y'') = Some ''R''"
    by code_simp+
  from debounce_coalescing [OF reachable_alice_and_bob alice_and_bob_facts(1,3) e w l t]
  obtain s1 s2 where r:
    "run (CodeChange ''x'' (code_payload ''R'' ''a'') # ?es) alice_and_bob = Inr s1"
    "run (CodeChange ''x'' (code_payload ''R'' ''a'') # ?es @ [Elapse 1]) alice_and_bob = Inr s2"
    "code_updates_by ''x'' (drop (length (out alice_and_bob)) (out s2)) =
               [\<lparr>target = ToOthers ''x'' (JStr ''R''), ev = ''codeUpdate'',
                 payload = JStr (last_code ''x'' (str_of (jsprop (code_payload ''R'' ''a'') ''code'')) ?es),
                 rcpts = filter (\<lambda>y. y \<notin> set (adapter s1 ''x'')) (adapter s1 ''R'')\<rparr>]"
    "set (adapter s1 ''x'') = {''x''}
       \<longrightarrow> ''x'' \<notin> set (filter (\<lambda>y. y \<notin> set (adapter s1 ''x'')) (adapter s1 ''R''))
         \<and> (\<forall>c'. c' \<noteq> ''x'' \<and> live s1 c' \<and> currentRoom (data s1 c') = Some ''R''
              \<longrightarrow> c' \<in> set (filter (\<lambda>y. y \<notin> set (adapter s1 ''x'')) (adapter s1 ''R'')))"
    by blast
  from r(1) S have eq: "s1 = ?S" by simp
  have own: "set (adapter s1 ''x'') = {''x''}" unfolding eq f by simp
  have y: "''y'' \<noteq> ''x''" "live s1 ''y''" "currentRoom (data s1 ''y'') = Some ''R''"
    unfolding eq using f by simp_all
  note k = r(4) [THEN mp, OF own]
  have m: "''x'' \<notin> set (filter (\<lambda>y. y \<notin> set (adapter s1 ''x'')) (adapter s1 ''R''))"
    "''y'' \<in> set (filter (\<lambda>y. y \<notin> set (adapter s1 ''x'')) (adapter s1 ''R''))"
    by (rule k [THEN conjunct1], rule k [THEN conjunct2, THEN spec, THEN mp]) (intro conjI y)
  have rc: "filter (\<lambda>y. y \<notin> set (adapter s1 ''x'')) (adapter s1 ''R'') = [''y'']"
    unfolding eq f by simp
  show ?thesis
    using r(1,2) r(3) [unfolded c rc] own y m
    by (intro exI [of _ s1] exI [of _ s2]) simp
qed

text \<open>The scenario of the specification: three edits within 40 ms, one update after 100 ms.\<close>

lemma scenario_one_update:
  "emitted [Connect ''x'', Connect ''y'', Join ''x'' (join_payload ''R'' ''Alice''),
            Join ''y'' (join_payload ''R'' ''Bob''),
            CodeChange ''x'' (code_payload ''R'' ''a''), Elapse 20,
            CodeChange ''x'' (code_payload ''R'' ''ab''), Elapse 20,
            CodeChange ''x'' (code_payload ''R'' ''abc''), Elapse 99, Elapse 1]
   = Inr [\<lparr>target = ToRoom ''R'', ev = ''userJoined'', payload = roster [''Alice''],
              rcpts = [''x'']\<rparr>,
            \<lparr>target = ToRoom ''R'', ev = ''userJoined'', payload = roster [''Alice'', ''Bob''],
              rcpts = [''x'', ''y'']\<rparr>,
            \<lparr>target = ToOthers ''x'' (JStr ''R''), ev = ''codeUpdate'', payload = JStr ''abc'',
              rcpts = [''y'']\<rparr>]"
  by code_simp

text \<open>
  C2. A socket with a pending edit that leaves its room by \<open>leaveRoom\<close> keeps its timer:
  the \<open>leaveRoom\<close> listener never calls \<open>clearTimeout\<close>, so when the timer fires the
  pending edit is still broadcast to the room the socket has left. The \<open>disconnect\<close>
  listener does cancel the timer, and there nothing is broadcast.
\<close>

theorem leave_keeps_pending_flush:
  "emitted [Connect ''x'', Connect ''y'', Join ''x'' (join_payload ''R'' ''Alice''),
            Join ''y'' (join_payload ''R'' ''Bob''), CodeChange ''x'' (code_payload ''R'' ''abc''),
            LeaveRoom ''x'', Elapse 100]
     = Inr [\<lparr>target = ToRoom ''R'', ev = ''userJoined'', payload = roster [''Alice''],
              rcpts = [''x'']\<rparr>,
            \<lparr>target = ToRoom ''R'', ev = ''userJoined'', payload = roster [''Alice'', ''Bob''],
              rcpts = [''x'', ''y'']\<rparr>,
            \<lparr>target = ToRoom ''R'', ev = ''userJoined'', payload = roster [''Bob''],
              rcpts = [''x'', ''y'']\<rparr>,
            \<lparr>target = ToOthers ''x'' (JStr ''R''), ev = ''codeUpdate'', payload = JStr ''abc'',
              rcpts = [''y'']\<rparr>]
   \<and> emitted [Connect ''x'', Connect ''y'', Join ''x'' (join_payload ''R'' ''Alice''),
            Join ''y'' (join_payload ''R'' ''Bob''), CodeChange ''x'' (code_payload ''R'' ''abc''),
            Disconnect ''x'', Elapse 100]
     = Inr [\<lparr>target = ToRoom ''R'', ev = ''userJoined'', payload = roster [''Alice''],
              rcpts = [''x'']\<rparr>,
            \<lparr>target = ToRoom ''R'', ev = ''userJoined'', payload = roster [''Alice'', ''Bob''],
              rcpts = [''x'', ''y'']\<rparr>,
            \<lparr>target = ToRoom ''R'', ev = ''userJoined'', payload = roster [''Bob''],
              rcpts = [''y'']\<rparr>]"
  by (simp add: model_defs)





text \<open>
  C4 as stated fails when the participants of a room are the connections in it, because
  the directory holds names. Two sockets named Bob share room A; one of them leaves,
  which removes the name Bob and deletes A from the directory, while the other socket is
  still connected with A as its current room.
\<close>

theorem room_gone_while_occupied:
  "live (state_after [Connect ''1'', Connect ''2'', Join ''1'' (join_payload ''A'' ''Bob''),
                      Join ''2'' (join_payload ''A'' ''Bob''), LeaveRoom ''2'']) ''1''
   \<and> currentRoom (data (state_after [Connect ''1'', Connect ''2'',
                      Join ''1'' (join_payload ''A'' ''Bob''),
                      Join ''2'' (join_payload ''A'' ''Bob''), LeaveRoom ''2'']) ''1'') = Some ''A''
   \<and> rooms (state_after [Connect ''1'', Connect ''2'', Join ''1'' (join_payload ''A'' ''Bob''),
                      Join ''2'' (join_payload ''A'' ''Bob''), LeaveRoom ''2'']) ''A'' = None"
  by code_simp

text \<open>
  C4, amended. In every reachable state every room of the directory has a non-empty set
  of names, each of them the name of a connected socket whose current room it is. In
  every state reached through states in which no two connected sockets with the same
  current room bear the same name, a room identifier is present in the directory if and
  only if it is the current room of some connected socket. When a connected socket whose
  current room R is in the directory leaves, by \<open>leaveRoom\<close> or by disconnecting, its
  name is removed from the names of R, and R is deleted from the directory in that same
  turn if no name is left.
\<close>

theorem room_lifecycle:
  assumes "reachable s"
  shows "(r \<in> dom (rooms s)
            \<longrightarrow> participants s r \<noteq> []
                \<and> (\<forall>n \<in> set (participants s r).
                      \<exists>c. live s c \<and> currentRoom (data s c) = Some r \<and> userName (data s c) = Some n))
       \<and> (reachable_distinct s
            \<longrightarrow> (r \<in> dom (rooms s)) = (\<exists>c. live s c \<and> currentRoom (data s c) = Some r))
       \<and> (live s c \<and> currentRoom (data s c) = Some r \<and> rooms s r = Some ns
            \<longrightarrow> (\<exists>n s1 s2. userName (data s c) = Some n
                   \<and> step (LeaveRoom c) s = Inr s1
                   \<and> rooms s1 r = (if removeAll n ns = [] then None else Some (removeAll n ns))
                   \<and> step (Disconnect c) s = Inr s2
                   \<and> rooms s2 r = (if removeAll n ns = [] then None else Some (removeAll n ns))))"
proof (intro conjI impI)
  assume "r \<in> dom (rooms s)"
  then obtain ms where ms: "rooms s r = Some ms" by blast
  then show "participants s r \<noteq> []"
    using reachable_nonempty [OF assms] by (auto simp: rosters_nonempty_def participants_def)
  show "\<forall>n \<in> set (participants s r).
          \<exists>c. live s c \<and> currentRoom (data s c) = Some r \<and> userName (data s c) = Some n"
  proof
    fix n assume "n \<in> set (participants s r)"
    then have "n \<in> set ms" using ms by (simp add: participants_def)
    from backedD [OF reachable_backed [OF assms] ms this]
    obtain c d where "socks s c = Some d" "connected d" "currentRoom d = Some r"
      "userName d = Some n" by blast
    then have "live s c \<and> currentRoom (data s c) = Some r \<and> userName (data s c) = Some n"
      by (simp add: live_def data_def)
    then show "\<exists>c. live s c \<and> currentRoom (data s c) = Some r \<and> userName (data s c) = Some n"
      by blast
  qed
next
  assume rd: "reachable_distinct s"
  show "(r \<in> dom (rooms s)) = (\<exists>c. live s c \<and> currentRoom (data s c) = Some r)"
  proof
    assume "r \<in> dom (rooms s)"
    then obtain ms where ms: "rooms s r = Some ms" by blast
    then have "ms \<noteq> []"
      using reachable_nonempty [OF assms] by (auto simp: rosters_nonempty_def)
    then obtain n where "n \<in> set ms" by (cases ms) auto
    from backedD [OF reachable_backed [OF assms] ms this]
    obtain c d where "socks s c = Some d" "connected d" "currentRoom d = Some r" by blast
    then have "live s c \<and> currentRoom (data s c) = Some r"
      by (simp add: live_def data_def)
    then show "\<exists>c. live s c \<and> currentRoom (data s c) = Some r" by blast
  next
    assume "\<exists>c. live s c \<and> currentRoom (data s c) = Some r"
    then obtain c where h: "live s c" "currentRoom (data s c) = Some r" by blast
    obtain d n where d: "socks s c = Some d" "connected d" "currentRoom d = Some r"
        "userName d = Some n"
      using in_room_facts [OF assms h] by blast
    from rd have "listed s" by (rule reachable_distinct_listed)
    from listedD [OF this d] show "r \<in> dom (rooms s)"
      by (cases "rooms s r") (auto simp: participants_def)
  qed
next
  assume h: "live s c \<and> currentRoom (data s c) = Some r \<and> rooms s r = Some ns"
  then have l: "live s c" and cr: "currentRoom (data s c) = Some r" and ro: "rooms s r = Some ns"
    by simp_all
  from leave_updates_directory [OF assms l cr ro] l
  show "\<exists>n s1 s2. userName (data s c) = Some n
                   \<and> step (LeaveRoom c) s = Inr s1
                   \<and> rooms s1 r = (if removeAll n ns = [] then None else Some (removeAll n ns))
                   \<and> step (Disconnect c) s = Inr s2
                   \<and> rooms s2 r = (if removeAll n ns = [] then None else Some (removeAll n ns))"
    by auto
qed

theorem room_lifecycle_witness:
  "(''R'' \<in> dom (rooms alice_and_bob) \<and> participants alice_and_bob ''R'' \<noteq> []
      \<and> ''Alice'' \<in> set (participants alice_and_bob ''R'')
      \<and> (\<exists>c. live alice_and_bob c \<and> currentRoom (data alice_and_bob c) = Some ''R''
             \<and> userName (data alice_and_bob c) = Some ''Alice''))
   \<and> (reachable_distinct alice_and_bob
      \<and> (''R'' \<in> dom (rooms alice_and_bob))
          = (\<exists>c. live alice_and_bob c \<and> currentRoom (data alice_and_bob c) = Some ''R''))
   \<and> (live alice_and_bob ''x'' \<and> currentRoom (data alice_and_bob ''x'') = Some ''R''
      \<and> rooms alice_and_bob ''R'' = Some [''Alice'', ''Bob'']
      \<and> (\<exists>s1 s2. step (LeaveRoom ''x'') alice_and_bob = Inr s1 \<and> rooms s1 ''R'' = Some [''Bob'']
             \<and> step (Disconnect ''x'') alice_and_bob = Inr s2 \<and> rooms s2 ''R'' = Some [''Bob'']))
   \<and> (live (state_after [Connect ''x'', Join ''x'' (join_payload ''R'' ''Alice'')]) ''x''
      \<and> currentRoom (data (state_after [Connect ''x'', Join ''x'' (join_payload ''R'' ''Alice'')])
            ''x'') = Some ''R''
      \<and> rooms (state_after [Connect ''x'', Join ''x'' (join_payload ''R'' ''Alice'')]) ''R''
            = Some [''Alice'']
      \<and> (\<exists>s1 s2. step (LeaveRoom ''x'')
                     (state_after [Connect ''x'', Join ''x'' (join_payload ''R'' ''Alice'')]) = Inr s1
             \<and> rooms s1 ''R'' = None
             \<and> step (Disconnect ''x'')
                     (state_after [Connect ''x'', Join ''x'' (join_payload ''R'' ''Alice'')]) = Inr s2
             \<and> rooms s2 ''R'' = None))"
proof -
  let ?A = "state_after [Connect ''x'', Join ''x'' (join_payload ''R'' ''Alice'')]"
  note f = alice_and_bob_facts
  note t = room_lifecycle [OF reachable_alice_and_bob, of "''R''" "''x''" "[''Alice'', ''Bob'']"]
  have d: "''R'' \<in> dom (rooms alice_and_bob)" using f(5) by blast
  have a: "''Alice'' \<in> set (participants alice_and_bob ''R'')"
    by (simp add: participants_def f(5))
  note p = t [THEN conjunct1, THEN mp, OF d]
  have p1: "participants alice_and_bob ''R'' \<noteq> []" by (rule p [THEN conjunct1])
  have p2: "\<exists>c. live alice_and_bob c \<and> currentRoom (data alice_and_bob c) = Some ''R''
             \<and> userName (data alice_and_bob c) = Some ''Alice''"
    by (rule p [THEN conjunct2, THEN bspec, OF a])
  have q: "(''R'' \<in> dom (rooms alice_and_bob))
          = (\<exists>c. live alice_and_bob c \<and> currentRoom (data alice_and_bob c) = Some ''R'')"
    by (rule t [THEN conjunct2, THEN conjunct1, THEN mp, OF reachable_distinct_alice_and_bob])
  have "\<exists>n s1 s2. userName (data alice_and_bob ''x'') = Some n
          \<and> step (LeaveRoom ''x'') alice_and_bob = Inr s1
          \<and> rooms s1 ''R'' = (if removeAll n [''Alice'', ''Bob''] = [] then None
                               else Some (removeAll n [''Alice'', ''Bob'']))
          \<and> step (Disconnect ''x'') alice_and_bob = Inr s2
          \<and> rooms s2 ''R'' = (if removeAll n [''Alice'', ''Bob''] = [] then None
                               else Some (removeAll n [''Alice'', ''Bob'']))"
    by (rule t [THEN conjunct2, THEN conjunct2, THEN mp]) (intro conjI f(1) f(3) f(5))
  then have l: "\<exists>s1 s2. step (LeaveRoom ''x'') alice_and_bob = Inr s1
             \<and> rooms s1 ''R'' = Some [''Bob'']
             \<and> step (Disconnect ''x'') alice_and_bob = Inr s2 \<and> rooms s2 ''R'' = Some [''Bob'']"
    unfolding f(4) by auto
  have g: "live ?A ''x''" "currentRoom (data ?A ''x'') = Some ''R''"
    "rooms ?A ''R'' = Some [''Alice'']" "userName (data ?A ''x'') = Some ''Alice''"
    by code_simp+
  have "\<exists>n s1 s2. userName (data ?A ''x'') = Some n
          \<and> step (LeaveRoom ''x'') ?A = Inr s1
          \<and> rooms s1 ''R'' = (if removeAll n [''Alice''] = [] then None
                               else Some (removeAll n [''Alice'']))
          \<and> step (Disconnect ''x'') ?A = Inr s2
          \<and> rooms s2 ''R'' = (if removeAll n [''Alice''] = [] then None
                               else Some (removeAll n [''Alice'']))"
    by (rule room_lifecycle [where s = "?A" and r = "''R''" and c = "''x''" and ns = "[''Alice'']",
              OF reachable_state_after, THEN conjunct2, THEN conjunct2, THEN mp])
       (intro conjI g(1-3))
  then have e: "\<exists>s1 s2. step (LeaveRoom ''x'') ?A = Inr s1 \<and> rooms s1 ''R'' = None
             \<and> step (Disconnect ''x'') ?A = Inr s2 \<and> rooms s2 ''R'' = None"
    unfolding g(4) by auto
  show ?thesis
    by (intro conjI d p1 a p2 reachable_distinct_alice_and_bob q f(1) f(3) f(5) l g(1-3) e)
qed

text \<open>
  C5. A socket that never joined any room still reaches the members of a room: the
  \<open>typing\<close> and \<open>languageChange\<close> listeners do not check that the sender is in the
  room it names, as the \<open>codeChange\<close> listener does, whose edit is dropped here.
\<close>

theorem outsider_reaches_room:
  "emitted [Connect ''x'', Connect ''y'', Join ''y'' (join_payload ''R'' ''Bob''),
            CodeChange ''x'' (code_payload ''R'' ''abc''), Elapse 100,
            Typing ''x'' (JObj [(''roomId'', JStr ''R''), (''userName'', JStr ''Eve'')]),
            LanguageChange ''x'' (JObj [(''roomId'', JStr ''R''), (''language'', JStr ''python'')])]
     = Inr [\<lparr>target = ToRoom ''R'', ev = ''userJoined'', payload = roster [''Bob''],
              rcpts = [''y'']\<rparr>,
            \<lparr>target = ToOthers ''x'' (JStr ''R''), ev = ''userTyping'', payload = JStr ''Eve'',
              rcpts = [''y'']\<rparr>,
            \<lparr>target = ToRoom ''R'', ev = ''languageUpdate'', payload = JStr ''python'',
              rcpts = [''y'']\<rparr>]"
  by (simp add: model_defs)

text \<open>
  C6. A \<open>typing\<close> event without \<open>userName\<close>, or with one that is not a string, is not
  dropped: the listener validates nothing and relays the value to the rest of the
  room, where \<open>codeChange\<close> and \<open>languageChange\<close> with a missing field are dropped. A
  \<open>null\<close> payload makes the parameter destructuring throw.
\<close>

theorem malformed_typing_relayed:
  "emitted [Connect ''x'', Connect ''y'', Join ''x'' (join_payload ''R'' ''Alice''),
            Join ''y'' (join_payload ''R'' ''Bob''),
            CodeChange ''x'' (JObj [(''roomId'', JStr ''R'')]), Elapse 100,
            LanguageChange ''x'' (JObj [(''roomId'', JStr ''R'')]),
            Typing ''x'' (JObj [(''roomId'', JStr ''R'')]),
            Typing ''x'' (JObj [(''roomId'', JStr ''R''), (''userName'', JNum 42)])]
     = Inr [\<lparr>target = ToRoom ''R'', ev = ''userJoined'', payload = roster [''Alice''],
              rcpts = [''x'']\<rparr>,
            \<lparr>target = ToRoom ''R'', ev = ''userJoined'', payload = roster [''Alice'', ''Bob''],
              rcpts = [''x'', ''y'']\<rparr>,
            \<lparr>target = ToOthers ''x'' (JStr ''R''), ev = ''userTyping'', payload = JUndefined,
              rcpts = [''y'']\<rparr>,
            \<lparr>target = ToOthers ''x'' (JStr ''R''), ev = ''userTyping'', payload = JNum 42,
              rcpts = [''y'']\<rparr>]
   \<and> emitted [Connect ''x'', Typing ''x'' JNull] = Inl TypeError"
  by (simp add: model_defs)

text \<open>
  C7. A join whose \<open>roomId\<close> or \<open>userName\<close> is not a string, or is a string that is
  empty once trimmed (an empty \<open>roomId\<close> in particular), changes nothing but the log of
  emissions, to which it adds one \<open>error\<close> event delivered to the requesting socket
  alone; no \<open>userJoined\<close> is emitted. The socket can retry: a well-formed join sent next
  puts it into the room under the name it gave.
\<close>

theorem invalid_join_rejected:
  assumes "live s c"
    and "\<not> (is_string (jsprop p ''roomId'') \<and> trim (str_of (jsprop p ''roomId'')) \<noteq> [])
         \<or> \<not> (is_string (jsprop p ''userName'') \<and> trim (str_of (jsprop p ''userName'')) \<noteq> [])"
    and "jsprop q ''roomId'' = JStr r" "trim r \<noteq> []"
    and "jsprop q ''userName'' = JStr n" "trim n \<noteq> []"
  shows "(\<exists>m. step (Join c p) s =
            Inr (s\<lparr>out := out s @ [\<lparr>target = ToSocket c, ev = ''error'',
                                       payload = JObj [(''message'', JStr m)], rcpts = [c]\<rparr>]\<rparr>))
       \<and> (\<exists>s'. run [Join c p, Join c q] s = Inr s'
              \<and> currentRoom (data s' c) = Some r \<and> userName (data s' c) = Some n
              \<and> n \<in> set (participants s' r))"
proof -
  obtain d where d: "socks s c = Some d" using assms(1) live_socks by blast
  have "\<exists>m. step (Join c p) s =
            Inr (s\<lparr>out := out s @ [\<lparr>target = ToSocket c, ev = ''error'',
                                       payload = JObj [(''message'', JStr m)], rcpts = [c]\<rparr>]\<rparr>)"
    using assms(1,2) by (auto simp: on_join_def emit_socket_def dest: trim_nonempty)
  then obtain m where m: "step (Join c p) s =
            Inr (s\<lparr>out := out s @ [\<lparr>target = ToSocket c, ev = ''error'',
                                       payload = JObj [(''message'', JStr m)], rcpts = [c]\<rparr>]\<rparr>)"
    by blast
  let ?t = "s\<lparr>out := out s @ [\<lparr>target = ToSocket c, ev = ''error'',
                                  payload = JObj [(''message'', JStr m)], rcpts = [c]\<rparr>]\<rparr>"
  have l: "live ?t c" using assms(1) by (simp add: live_def)
  have "currentRoom (data (on_join c q ?t) c) = Some r"
    and "userName (data (on_join c q ?t) c) = Some n"
    by (simp_all add: data_def socks_on_join [OF assms(3-6)] d)
  moreover have "n \<in> set (participants (on_join c q ?t) r)"
    by (simp add: participants_on_join [OF assms(3-6)])
  ultimately have "\<exists>s'. run [Join c p, Join c q] s = Inr s'
              \<and> currentRoom (data s' c) = Some r \<and> userName (data s' c) = Some n
              \<and> n \<in> set (participants s' r)"
    using m l by simp
  with m show ?thesis by blast
qed

theorem invalid_join_rejected_witness:
  "(\<exists>m. step (Join ''x'' (join_payload [] ''Bob'')) (state_after [Connect ''x'']) =
      Inr ((state_after [Connect ''x''])
             \<lparr>out := out (state_after [Connect ''x'']) @
                [\<lparr>target = ToSocket ''x'', ev = ''error'',
                  payload = JObj [(''message'', JStr m)], rcpts = [''x'']\<rparr>]\<rparr>))
   \<and> (\<exists>s'. run [Join ''x'' (join_payload [] ''Bob''), Join ''x'' (join_payload ''R'' ''Bob'')]
               (state_after [Connect ''x'']) = Inr s'
          \<and> currentRoom (data s' ''x'') = Some ''R'' \<and> userName (data s' ''x'') = Some ''Bob''
          \<and> ''Bob'' \<in> set (participants s' ''R''))"
proof -
  have a: "live (state_after [Connect ''x'']) ''x''"
    by (simp add: model_defs)
  have b: "\<not> (is_string (jsprop (join_payload [] ''Bob'') ''roomId'')
                \<and> trim (str_of (jsprop (join_payload [] ''Bob'') ''roomId'')) \<noteq> [])
           \<or> \<not> (is_string (jsprop (join_payload [] ''Bob'') ''userName'')
                \<and> trim (str_of (jsprop (join_payload [] ''Bob'') ''userName'')) \<noteq> [])"
    by (simp add: join_payload_def trim_def)
  have c: "jsprop (join_payload ''R'' ''Bob'') ''roomId'' = JStr ''R''" "trim ''R'' \<noteq> []"
    "jsprop (join_payload ''R'' ''Bob'') ''userName'' = JStr ''Bob''" "trim ''Bob'' \<noteq> []"
    by (simp_all add: join_payload_def trim_def is_ws_def)
  show ?thesis
    by (rule invalid_join_rejected [OF a b c])
qed





text \<open>
  C9. In every reachable state the current-room field and the display-name field of a
  socket are both \<open>null\<close> or both set; every state a handler returns from is such a
  state, so no handler leaves exactly one of the two set.
\<close>

theorem room_and_name_set_together:
  assumes "reachable s" and "socks s c = Some d"
  shows "(currentRoom d = None) = (userName d = None)"
  using reachable_paired [OF assms(1)] assms(2) by (simp add: paired_def)

theorem room_and_name_set_together_witness:
  "socks (state_after [Connect ''x'', Join ''x'' (join_payload ''R'' ''Alice'')]) ''x''
     = Some \<lparr>currentRoom = Some ''R'', userName = Some ''Alice'', codeDebounceTimer = None,
             pendingCode = None, connected = True\<rparr>
   \<and> ((currentRoom \<lparr>currentRoom = Some ''R'', userName = Some ''Alice'',
                     codeDebounceTimer = None, pendingCode = None, connected = True\<rparr> = None)
      = (userName \<lparr>currentRoom = Some ''R'', userName = Some ''Alice'',
                   codeDebounceTimer = None, pendingCode = None, connected = True\<rparr> = None))"
proof -
  have h: "socks (state_after [Connect ''x'', Join ''x'' (join_payload ''R'' ''Alice'')]) ''x''
     = Some \<lparr>currentRoom = Some ''R'', userName = Some ''Alice'', codeDebounceTimer = None,
             pendingCode = None, connected = True\<rparr>"
    by (simp add: model_defs)
  show ?thesis
    using h room_and_name_set_together [OF reachable_state_after h] by simp
qed

text \<open>
  C10. A well-formed join stores the \<open>userName\<close> exactly as it was sent: that string,
  untrimmed, becomes the socket's display name, is added to the participant set of the
  room and is in the roster that is broadcast. Trimming only decides whether the name
  counts as empty, so a name and its trimmed form are different participants: every other
  name of the room stays as it was.
\<close>

theorem join_keeps_name_untrimmed:
  assumes "live s c"
      and "jsprop p ''roomId'' = JStr r" "trim r \<noteq> []"
      and "jsprop p ''userName'' = JStr n" "trim n \<noteq> []"
  shows "\<exists>s'. step (Join c p) s = Inr s'
           \<and> userName (data s' c) = Some n
           \<and> set (participants s' r) =
                insert n (set (participants s r)
                           - (if currentRoom (data s c) = Some r
                              then set_option (userName (data s c)) else {}))
           \<and> last (out s') = \<lparr>target = ToRoom r, ev = ''userJoined'',
                                payload = roster (participants s' r), rcpts = adapter s' r\<rparr>"
proof -
  obtain d where d: "socks s c = Some d" using assms(1) live_socks by blast
  have "userName (data (on_join c p s) c) = Some n"
    by (simp add: data_def socks_on_join [OF assms(2-5)] d)
  moreover note participants_on_join [OF assms(2-5), of c s]
  moreover have "last (out (on_join c p s)) =
      \<lparr>target = ToRoom r, ev = ''userJoined'',
        payload = roster (participants (on_join c p s) r), rcpts = adapter (on_join c p s) r\<rparr>"
    by (simp add: out_on_join [OF assms(2-5)])
  ultimately show ?thesis using assms(1) by simp
qed

theorem join_keeps_name_untrimmed_witness:
  "\<exists>s'. step (Join ''x'' (join_payload ''R'' ''  Bob  ''))
            (state_after [Connect ''x'', Connect ''y'', Join ''y'' (join_payload ''R'' ''Bob'')])
          = Inr s'
      \<and> userName (data s' ''x'') = Some ''  Bob  ''
      \<and> set (participants s' ''R'') = {''  Bob  '', ''Bob''}
      \<and> last (out s') = \<lparr>target = ToRoom ''R'', ev = ''userJoined'',
                           payload = roster (participants s' ''R''), rcpts = adapter s' ''R''\<rparr>"
proof -
  let ?s = "state_after [Connect ''x'', Connect ''y'', Join ''y'' (join_payload ''R'' ''Bob'')]"
  have a: "live ?s ''x''"
    by (simp add: model_defs)
  have c: "jsprop (join_payload ''R'' ''  Bob  '') ''roomId'' = JStr ''R''" "trim ''R'' \<noteq> []"
    "jsprop (join_payload ''R'' ''  Bob  '') ''userName'' = JStr ''  Bob  ''"
    "trim ''  Bob  '' \<noteq> []"
    by (simp_all add: join_payload_def trim_def is_ws_def)
  have p: "participants ?s ''R'' = [''Bob'']"
    by (simp add: model_defs)
  have n: "currentRoom (data ?s ''x'') = None"
    by (simp add: model_defs)
  from join_keeps_name_untrimmed [OF a c] p n show ?thesis
    by simp
qed

end
